theory Spec2Isabelle
  imports Complex_Main "HOL-Library.AList"
begin

section \<open>The grid planner of the notebook (class GraphSearch)\<close>

text \<open>
  The development embeds the class \<open>GraphSearch\<close> of
  \<open>week 3/particle_filter_quiz.ipynb\<close>: the occupancy map built by
  \<open>calc_obstacle_map\<close>, the cell test \<open>verify_node\<close>, the search loop of
  \<open>planning\<close> and the path reconstruction \<open>calc_final_path\<close>.

  Conventions of the embedding.
  \<^item> Python floats are read as real numbers (no rounding error, no NaN); Python
    integers are \<open>int\<close>.  \<open>math.sqrt\<close> is \<open>sqrt\<close>.
  \<^item> Every exception the code can raise is a value of \<open>py_error\<close>, returned as
    \<open>Inl\<close>.
  \<^item> A \<open>dict\<close> is an association list in insertion order: assigning to a new
    key appends, assigning to an existing key keeps its position
    (\<open>AList.update\<close>), \<open>del\<close> removes the entry (\<open>AList.delete\<close>).  This is
    the order in which Python iterates over a dictionary, in CPython 3.6 (the
    kernel of the notebook) and by the language definition from 3.7 on.
  \<^item> The two \<open>while\<close> loops are partial functions into \<open>option\<close>; \<open>None\<close>
    would mean that the loop runs forever.
\<close>

subsection \<open>Python primitives\<close>

datatype py_error = ValueError | ZeroDivisionError | IndexError | KeyError

text \<open>Python 3 \<open>round(r)\<close> with one argument: nearest integer, ties to even.\<close>

definition py_round :: "real \<Rightarrow> int" where
  "py_round r =
     (let f = \<lfloor>r\<rfloor>; d = r - of_int f
      in if d < 1 / 2 then f
         else if 1 / 2 < d then f + 1
         else if even f then f else f + 1)"

text \<open>\<open>min(xs)\<close> and \<open>max(xs)\<close>: \<open>ValueError\<close> on an empty list, else the first
  extremal element.\<close>

definition py_min :: "real list \<Rightarrow> py_error + real" where
  "py_min xs =
     (case xs of [] \<Rightarrow> Inl ValueError
      | a # as \<Rightarrow> Inr (fold (\<lambda>v best. if v < best then v else best) as a))"

definition py_max :: "real list \<Rightarrow> py_error + real" where
  "py_max xs =
     (case xs of [] \<Rightarrow> Inl ValueError
      | a # as \<Rightarrow> Inr (fold (\<lambda>v best. if best < v then v else best) as a))"

text \<open>\<open>xs[i]\<close> on a list: a negative index counts from the end, anything outside
  raises \<open>IndexError\<close>.\<close>

definition py_get :: "'a list \<Rightarrow> int \<Rightarrow> py_error + 'a" where
  "py_get xs i =
     (if 0 \<le> i \<and> i < int (length xs) then Inr (xs ! nat i)
      else if i < 0 \<and> - int (length xs) \<le> i then Inr (xs ! nat (int (length xs) + i))
      else Inl IndexError)"

subsection \<open>Data\<close>

text \<open>The nested class \<open>Node\<close>.  Its fields \<open>x\<close>, \<open>y\<close>, \<open>cost\<close>, \<open>pind\<close> carry the
  prefix \<open>node_\<close> here, since a record field is a constant of the theory and
  \<open>x\<close> and \<open>y\<close> are wanted as variables.\<close>

record Node =
  node_x :: int
  node_y :: int
  node_cost :: real
  node_pind :: int

text \<open>The attributes of a \<open>GraphSearch\<close> object.  \<open>motion\<close> is the constant
  list \<open>get_motion_model\<close> below.\<close>

record GraphSearch =
  reso :: real
  rr :: real
  minx :: int
  miny :: int
  maxx :: int
  maxy :: int
  xwidth :: int
  ywidth :: int
  obmap :: "bool list list"

subsection \<open>Back-end functions\<close>

definition calc_position :: "GraphSearch \<Rightarrow> int \<Rightarrow> int \<Rightarrow> real" where
  "calc_position g index minp = of_int index * reso g + of_int minp"

definition calc_xyindex :: "GraphSearch \<Rightarrow> real \<Rightarrow> int \<Rightarrow> py_error + int" where
  "calc_xyindex g position minp =
     (if reso g = 0 then Inl ZeroDivisionError
      else Inr (py_round ((position - of_int minp) / reso g)))"

definition calc_index :: "GraphSearch \<Rightarrow> Node \<Rightarrow> int" where
  "calc_index g node = (node_y node - miny g) * xwidth g + (node_x node - minx g)"

definition verify_node :: "GraphSearch \<Rightarrow> Node \<Rightarrow> py_error + bool" where
  "verify_node g node =
     (let px = calc_position g (node_x node) (minx g);
          py = calc_position g (node_y node) (miny g)
      in if px < of_int (minx g) then Inr False
         else if py < of_int (miny g) then Inr False
         else if of_int (maxx g) \<le> px then Inr False
         else if of_int (maxy g) \<le> py then Inr False
         else (case py_get (obmap g) (node_x node) of
                 Inl e \<Rightarrow> Inl e
               | Inr col \<Rightarrow>
                   (case py_get col (node_y node) of
                      Inl e \<Rightarrow> Inl e
                    | Inr occupied \<Rightarrow> if occupied then Inr False else Inr True)))"

text \<open>The innermost loop of \<open>calc_obstacle_map\<close>: scan the obstacle points, stop
  at the first one within the robot radius.  The result says whether the cell is
  marked.\<close>

fun hits :: "real \<Rightarrow> real \<Rightarrow> real \<Rightarrow> (real \<times> real) list \<Rightarrow> bool" where
  "hits rad cx cy [] = False"
| "hits rad cx cy ((iox, ioy) # ps) =
     (if sqrt ((iox - cx)\<^sup>2 + (ioy - cy)\<^sup>2) \<le> rad then True else hits rad cx cy ps)"

text \<open>The loop over \<open>iy\<close> for one column \<open>ix\<close>, and the loop over \<open>ix\<close>.  Both
  indices stay inside the freshly allocated map, so the writes cannot fail.\<close>

definition mark_column ::
  "GraphSearch \<Rightarrow> (real \<times> real) list \<Rightarrow> nat \<Rightarrow> bool list list \<Rightarrow> bool list list" where
  "mark_column g ps ix om =
     fold (\<lambda>iy m.
             if hits (rr g) (calc_position g (int ix) (minx g))
                  (calc_position g (int iy) (miny g)) ps
             then m[ix := (m ! ix)[iy := True]] else m)
          [0..<nat (ywidth g)] om"

definition calc_obstacle_map ::
  "real \<Rightarrow> real \<Rightarrow> real list \<Rightarrow> real list \<Rightarrow> py_error + GraphSearch" where
  "calc_obstacle_map res rad ox oy =
     (case py_min ox of Inl e \<Rightarrow> Inl e | Inr lox \<Rightarrow>
     (case py_min oy of Inl e \<Rightarrow> Inl e | Inr loy \<Rightarrow>
     (case py_max ox of Inl e \<Rightarrow> Inl e | Inr hix \<Rightarrow>
     (case py_max oy of Inl e \<Rightarrow> Inl e | Inr hiy \<Rightarrow>
        if res = 0 then Inl ZeroDivisionError
        else
          let mnx = py_round lox; mny = py_round loy;
              mxx = py_round hix; mxy = py_round hiy;
              xw = py_round (of_int (mxx - mnx) / res);
              yw = py_round (of_int (mxy - mny) / res);
              g = \<lparr>reso = res, rr = rad, minx = mnx, miny = mny, maxx = mxx, maxy = mxy,
                   xwidth = xw, ywidth = yw,
                   obmap = replicate (nat xw) (replicate (nat yw) False)\<rparr>
          in Inr (g\<lparr>obmap := fold (mark_column g (zip ox oy)) [0..<nat xw] (obmap g)\<rparr>)))))"

text \<open>\<open>GraphSearch(ox, oy, reso, rr)\<close>.\<close>

definition GraphSearch_init ::
  "real list \<Rightarrow> real list \<Rightarrow> real \<Rightarrow> real \<Rightarrow> py_error + GraphSearch" where
  "GraphSearch_init ox oy res rad = calc_obstacle_map res rad ox oy"

definition get_motion_model :: "(int \<times> int \<times> real) list" where
  "get_motion_model =
     [(1, 0, 1), (0, 1, 1), (-1, 0, 1), (0, -1, 1),
      (-1, -1, sqrt 2), (-1, 1, sqrt 2), (1, -1, sqrt 2), (1, 1, sqrt 2)]"

subsection \<open>The search loop of planning\<close>

type_synonym node_dict = "(int \<times> Node) list"

record search_state =
  openset :: node_dict
  closedset :: node_dict
  expansion :: "(real \<times> real) list"

text \<open>\<open>min(openset, key=lambda o: openset[o].cost)\<close>: the keys are visited in
  dictionary order and the running best is replaced only by a strictly smaller
  cost.\<close>

definition min_key :: "node_dict \<Rightarrow> py_error + int" where
  "min_key d =
     (case d of [] \<Rightarrow> Inl ValueError
      | (k, n) # rest \<Rightarrow>
          Inr (fst (fold (\<lambda>(k', n') (bk, bc).
                            if node_cost n' < bc then (k', node_cost n') else (bk, bc))
                         rest (k, node_cost n))))"

text \<open>The body of the loop over the motion model, for one motion.\<close>

definition expand_one ::
  "GraphSearch \<Rightarrow> int \<Rightarrow> Node \<Rightarrow> int \<times> int \<times> real \<Rightarrow> search_state
     \<Rightarrow> py_error + search_state" where
  "expand_one g c_id current m s =
     (let node = \<lparr>node_x = node_x current + fst m,
                  node_y = node_y current + fst (snd m),
                  node_cost = node_cost current + snd (snd m),
                  node_pind = c_id\<rparr>;
          n_id = calc_index g node
      in if n_id \<in> fst ` set (closedset s) then Inr s
         else (case verify_node g node of
                 Inl e \<Rightarrow> Inl e
               | Inr ok \<Rightarrow>
                   if \<not> ok then Inr s
                   else (case map_of (openset s) n_id of
                           None \<Rightarrow> Inr (s\<lparr>openset := AList.update n_id node (openset s)\<rparr>)
                         | Some old \<Rightarrow>
                             if node_cost node < node_cost old
                             then Inr (s\<lparr>openset := AList.update n_id node (openset s)\<rparr>)
                             else Inr s)))"

fun expand ::
  "GraphSearch \<Rightarrow> int \<Rightarrow> Node \<Rightarrow> (int \<times> int \<times> real) list \<Rightarrow> search_state
     \<Rightarrow> py_error + search_state" where
  "expand g c_id current [] s = Inr s"
| "expand g c_id current (m # ms) s =
     (case expand_one g c_id current m s of
        Inl e \<Rightarrow> Inl e
      | Inr s' \<Rightarrow> expand g c_id current ms s')"

text \<open>One pass through the body of \<open>while 1\<close>: an exception, the \<open>break\<close> with
  the updated goal node, or the state for the next pass.\<close>

datatype pass = Raise py_error | Found Node search_state | Next search_state

definition iteration :: "GraphSearch \<Rightarrow> Node \<Rightarrow> search_state \<Rightarrow> pass" where
  "iteration g ngoal s =
     (case min_key (openset s) of
        Inl e \<Rightarrow> Raise e
      | Inr c_id \<Rightarrow>
          (case map_of (openset s) c_id of
             None \<Rightarrow> Raise KeyError
           | Some current \<Rightarrow>
               let s1 = s\<lparr>expansion := expansion s @
                           [(calc_position g (node_x current) (minx g),
                             calc_position g (node_y current) (miny g))]\<rparr>
               in if node_x current = node_x ngoal \<and> node_y current = node_y ngoal
                  then Found (ngoal\<lparr>node_pind := node_pind current,
                                     node_cost := node_cost current\<rparr>) s1
                  else
                    let s2 = s1\<lparr>openset := AList.delete c_id (openset s1),
                                closedset := AList.update c_id current (closedset s1)\<rparr>
                    in (case expand g c_id current get_motion_model s2 of
                          Inl e \<Rightarrow> Raise e
                        | Inr s3 \<Rightarrow> Next s3)))"

partial_function (option) search ::
  "GraphSearch \<Rightarrow> Node \<Rightarrow> search_state \<Rightarrow> (py_error + Node \<times> search_state) option" where
  "search g ngoal s =
     (case iteration g ngoal s of
        Raise e \<Rightarrow> Some (Inl e)
      | Found ngoal' s' \<Rightarrow> Some (Inr (ngoal', s'))
      | Next s' \<Rightarrow> search g ngoal s')"

subsection \<open>Path reconstruction\<close>

text \<open>The loop \<open>while pind != -1\<close> of \<open>calc_final_path\<close>; \<open>closedset[pind]\<close>
  raises \<open>KeyError\<close> on a missing key.\<close>

partial_function (option) final_loop ::
  "GraphSearch \<Rightarrow> node_dict \<Rightarrow> int \<Rightarrow> real list \<Rightarrow> real list
     \<Rightarrow> (py_error + real list \<times> real list) option" where
  "final_loop g cs pind rx ry =
     (if pind \<noteq> - 1
      then (case map_of cs pind of
              None \<Rightarrow> Some (Inl KeyError)
            | Some n \<Rightarrow>
                final_loop g cs (node_pind n)
                  (rx @ [calc_position g (node_x n) (minx g)])
                  (ry @ [calc_position g (node_y n) (miny g)]))
      else Some (Inr (rx, ry)))"

definition calc_final_path ::
  "GraphSearch \<Rightarrow> Node \<Rightarrow> node_dict \<Rightarrow> (py_error + real list \<times> real list) option" where
  "calc_final_path g ngoal cs =
     final_loop g cs (node_pind ngoal)
       [calc_position g (node_x ngoal) (minx g)]
       [calc_position g (node_y ngoal) (miny g)]"

subsection \<open>planning\<close>

text \<open>The start and goal nodes of a call, and the state before the first pass.\<close>

definition start_state :: "GraphSearch \<Rightarrow> Node \<Rightarrow> search_state" where
  "start_state g nstart =
     \<lparr>openset = AList.update (calc_index g nstart) nstart [], closedset = [],
      expansion = []\<rparr>"

text \<open>The part of \<open>planning\<close> after the two nodes are built: the loop, then
  \<open>calc_final_path\<close>, then the returned triple \<open>(rx, ry, expansion)\<close>.\<close>

definition run_search ::
  "GraphSearch \<Rightarrow> Node \<Rightarrow> Node
     \<Rightarrow> (py_error + real list \<times> real list \<times> (real \<times> real) list) option" where
  "run_search g nstart ngoal =
     (case search g ngoal (start_state g nstart) of
        None \<Rightarrow> None
      | Some (Inl e) \<Rightarrow> Some (Inl e)
      | Some (Inr (ngoal', s)) \<Rightarrow>
          (case calc_final_path g ngoal' (closedset s) of
             None \<Rightarrow> None
           | Some (Inl e) \<Rightarrow> Some (Inl e)
           | Some (Inr (rx, ry)) \<Rightarrow> Some (Inr (rx, ry, expansion s))))"

definition planning ::
  "GraphSearch \<Rightarrow> real \<Rightarrow> real \<Rightarrow> real \<Rightarrow> real
     \<Rightarrow> (py_error + real list \<times> real list \<times> (real \<times> real) list) option" where
  "planning g sx sy gx gy =
     (case calc_xyindex g sx (minx g) of Inl e \<Rightarrow> Some (Inl e) | Inr six \<Rightarrow>
     (case calc_xyindex g sy (miny g) of Inl e \<Rightarrow> Some (Inl e) | Inr siy \<Rightarrow>
     (case calc_xyindex g gx (minx g) of Inl e \<Rightarrow> Some (Inl e) | Inr gix \<Rightarrow>
     (case calc_xyindex g gy (miny g) of Inl e \<Rightarrow> Some (Inl e) | Inr giy \<Rightarrow>
        run_search g
          \<lparr>node_x = six, node_y = siy, node_cost = 0, node_pind = - 1\<rparr>
          \<lparr>node_x = gix, node_y = giy, node_cost = 0, node_pind = - 1\<rparr>))))"

subsection \<open>Runs of the loop and their invariant\<close>

text \<open>\<open>reach g ngoal s0 s\<close>: the loop, started in \<open>s0\<close>, is at the head of a pass
  in state \<open>s\<close>.\<close>

inductive reach :: "GraphSearch \<Rightarrow> Node \<Rightarrow> search_state \<Rightarrow> search_state \<Rightarrow> bool"
  for g :: GraphSearch and ngoal :: Node and s0 :: search_state where
  reach_start: "reach g ngoal s0 s0"
| reach_next: "reach g ngoal s0 s \<Longrightarrow> iteration g ngoal s = Next s' \<Longrightarrow> reach g ngoal s0 s'"

text \<open>An entry \<open>k \<mapsto> n\<close> of either dictionary is stored under its own index and is
  the start node or a node that passed \<open>verify_node\<close> and whose parent id is one
  of the keys \<open>K\<close>.\<close>

definition entry_ok :: "GraphSearch \<Rightarrow> Node \<Rightarrow> int set \<Rightarrow> int \<Rightarrow> Node \<Rightarrow> bool" where
  "entry_ok g nstart K k n \<longleftrightarrow>
     k = calc_index g n \<and> (n = nstart \<or> (verify_node g n = Inr True \<and> node_pind n \<in> K))"

definition search_inv :: "GraphSearch \<Rightarrow> Node \<Rightarrow> search_state \<Rightarrow> bool" where
  "search_inv g nstart s \<longleftrightarrow>
     distinct (map fst (openset s)) \<and> distinct (map fst (closedset s))
     \<and> fst ` set (openset s) \<inter> fst ` set (closedset s) = {}
     \<and> (\<forall>e \<in> set (openset s). entry_ok g nstart (fst ` set (closedset s)) (fst e) (snd e))
     \<and> (\<forall>i < length (closedset s).
           entry_ok g nstart (fst ` set (take i (closedset s)))
             (fst (closedset s ! i)) (snd (closedset s ! i)))"

text \<open>\<open>chain cs p ns\<close>: following the parent ids from \<open>p\<close> through the dictionary
  \<open>cs\<close> visits exactly the nodes \<open>ns\<close> and then reaches the id \<open>-1\<close>.\<close>

fun chain :: "node_dict \<Rightarrow> int \<Rightarrow> Node list \<Rightarrow> bool" where
  "chain cs p [] \<longleftrightarrow> p = - 1"
| "chain cs p (n # ns) \<longleftrightarrow> p \<noteq> - 1 \<and> map_of cs p = Some n \<and> chain cs (node_pind n) ns"

text \<open>The indices of all cells whose occupancy lookup can succeed: a finite set.\<close>

definition cell_keys :: "GraphSearch \<Rightarrow> int set" where
  "cell_keys g =
     (\<lambda>(i, j). (j - miny g) * xwidth g + (i - minx g)) `
       ({- int (length (obmap g)) ..< int (length (obmap g))} \<times>
        {- int (sum_list (map length (obmap g))) ..< int (sum_list (map length (obmap g)))})"

text \<open>The number of indices that can still enter the closed set: the measure of
  the loop.\<close>

definition remaining :: "GraphSearch \<Rightarrow> Node \<Rightarrow> search_state \<Rightarrow> nat" where
  "remaining g nstart s =
     card (insert (calc_index g nstart) (cell_keys g) - fst ` set (closedset s))"

text \<open>Whether the scan of the obstacle points marks the cell \<open>(ix, iy)\<close>.\<close>

definition cell_hit :: "GraphSearch \<Rightarrow> (real \<times> real) list \<Rightarrow> nat \<Rightarrow> nat \<Rightarrow> bool" where
  "cell_hit g ps ix iy =
     hits (rr g) (calc_position g (int ix) (minx g)) (calc_position g (int iy) (miny g)) ps"

subsection \<open>Paths on the grid and their cost\<close>

text \<open>A cell is free when \<open>verify_node\<close> accepts it.  \<open>cell_key\<close> is \<open>calc_index\<close> on
  a cell.  \<open>move_cost c c'\<close> is the cost of the motion from \<open>c\<close> to \<open>c'\<close>, if the
  motion model has one.  A walk is a non-empty list of free cells, each reached
  from the one before by a motion; its cost is the sum of the motion costs.\<close>

type_synonym cell = "int \<times> int"

definition cell_of :: "Node \<Rightarrow> cell" where
  "cell_of n = (node_x n, node_y n)"

definition free_cell :: "GraphSearch \<Rightarrow> cell \<Rightarrow> bool" where
  "free_cell g c \<longleftrightarrow>
     verify_node g \<lparr>node_x = fst c, node_y = snd c, node_cost = 0, node_pind = - 1\<rparr> = Inr True"

definition cell_key :: "GraphSearch \<Rightarrow> cell \<Rightarrow> int" where
  "cell_key g c = (snd c - miny g) * xwidth g + (fst c - minx g)"

definition move_cost :: "cell \<Rightarrow> cell \<Rightarrow> real option" where
  "move_cost c c' =
     map_of (map (\<lambda>(dx, dy, w). ((dx, dy), w)) get_motion_model)
       (fst c' - fst c, snd c' - snd c)"

fun walk :: "GraphSearch \<Rightarrow> cell list \<Rightarrow> bool" where
  "walk g [] = False"
| "walk g [c] = free_cell g c"
| "walk g (c # c' # cs) = (free_cell g c \<and> move_cost c c' \<noteq> None \<and> walk g (c' # cs))"

fun walk_cost :: "cell list \<Rightarrow> real" where
  "walk_cost (c # c' # cs) =
     (case move_cost c c' of Some w \<Rightarrow> w | None \<Rightarrow> 0) + walk_cost (c' # cs)"
| "walk_cost cs = 0"

text \<open>A grid on which \<open>verify_node\<close> cannot fault, free cells have distinct linear
  indices, and no free cell has the index \<open>-1\<close>.\<close>

definition sound_grid :: "GraphSearch \<Rightarrow> bool" where
  "sound_grid g \<longleftrightarrow>
     (\<forall>n e. verify_node g n \<noteq> Inl e)
     \<and> (\<forall>c c'. free_cell g c \<longrightarrow> free_cell g c' \<longrightarrow> cell_key g c = cell_key g c' \<longrightarrow> c = c')
     \<and> (\<forall>c. free_cell g c \<longrightarrow> cell_key g c \<noteq> - 1)"

text \<open>The invariant of the search as a shortest-path computation.  The cost of a
  node is attained by a walk from the start; the cost of a closed node is a lower
  bound for all such walks; every motion out of a closed node has been relaxed,
  but for the pairs in \<open>X\<close> (the motions of the node being expanded that are still
  to come); no closed node costs more than an open one; every node but the start
  is linked to its parent in the closed set.\<close>

definition attained :: "GraphSearch \<Rightarrow> cell \<Rightarrow> Node \<Rightarrow> bool" where
  "attained g S n \<longleftrightarrow>
     (\<exists>ps. walk g ps \<and> hd ps = S \<and> last ps = cell_of n \<and> walk_cost ps = node_cost n)"

definition lower_bound :: "GraphSearch \<Rightarrow> cell \<Rightarrow> Node \<Rightarrow> bool" where
  "lower_bound g S n \<longleftrightarrow>
     (\<forall>ps. walk g ps \<longrightarrow> hd ps = S \<longrightarrow> last ps = cell_of n \<longrightarrow> node_cost n \<le> walk_cost ps)"

definition relaxed :: "GraphSearch \<Rightarrow> search_state \<Rightarrow> Node \<Rightarrow> int \<times> int \<times> real \<Rightarrow> bool" where
  "relaxed g s u m \<longleftrightarrow>
     (free_cell g (node_x u + fst m, node_y u + fst (snd m)) \<longrightarrow>
        cell_key g (node_x u + fst m, node_y u + fst (snd m)) \<in> fst ` set (closedset s)
        \<or> (\<exists>n'. map_of (openset s) (cell_key g (node_x u + fst m, node_y u + fst (snd m)))
                   = Some n'
                \<and> node_cost n' \<le> node_cost u + snd (snd m)))"

definition linked :: "Node \<Rightarrow> node_dict \<Rightarrow> Node \<Rightarrow> bool" where
  "linked nstart cs n \<longleftrightarrow>
     n = nstart
     \<or> (\<exists>p w. map_of cs (node_pind n) = Some p
            \<and> move_cost (cell_of p) (cell_of n) = Some w
            \<and> node_cost n = node_cost p + w)"

definition dijkstra_inv ::
  "GraphSearch \<Rightarrow> Node \<Rightarrow> Node \<Rightarrow> (Node \<times> int \<times> int \<times> real) set \<Rightarrow> search_state \<Rightarrow> bool" where
  "dijkstra_inv g nstart ngoal X s \<longleftrightarrow>
     (\<forall>e \<in> set (openset s) \<union> set (closedset s).
        attained g (cell_of nstart) (snd e) \<and> linked nstart (closedset s) (snd e))
     \<and> (\<forall>e \<in> set (closedset s).
          lower_bound g (cell_of nstart) (snd e) \<and> cell_of (snd e) \<noteq> cell_of ngoal)
     \<and> (\<forall>e \<in> set (closedset s). \<forall>m \<in> set get_motion_model.
          (snd e, m) \<notin> X \<longrightarrow> relaxed g s (snd e) m)
     \<and> (\<forall>u \<in> set (closedset s). \<forall>v \<in> set (openset s). node_cost (snd u) \<le> node_cost (snd v))
     \<and> (closedset s = [] \<longrightarrow> openset s = [(calc_index g nstart, nstart)])
     \<and> (closedset s \<noteq> [] \<longrightarrow> calc_index g nstart \<in> fst ` set (closedset s))"

subsection \<open>Example grids\<close>

text \<open>\<open>GraphSearch([0, 9], [0, 9], 4, 1)\<close>: a bounding box of 9 by 9 at resolution 4.\<close>

definition grid_A :: GraphSearch where
  "grid_A = \<lparr>reso = 4, rr = 1, minx = 0, miny = 0, maxx = 9, maxy = 9,
             xwidth = 2, ywidth = 2, obmap = [[True, False], [False, False]]\<rparr>"

text \<open>\<open>GraphSearch([0, 2], [0, 2], 1, 0.5)\<close>: two by two cells, cell (0, 0) occupied.\<close>

definition grid_B :: GraphSearch where
  "grid_B = \<lparr>reso = 1, rr = 1 / 2, minx = 0, miny = 0, maxx = 2, maxy = 2,
             xwidth = 2, ywidth = 2, obmap = [[True, False], [False, False]]\<rparr>"

text \<open>\<open>GraphSearch([1, 0, 3], [0, 1, 1], 1, 0.5)\<close>: a row of three cells, the middle
  one occupied.\<close>

definition grid_C :: GraphSearch where
  "grid_C = \<lparr>reso = 1, rr = 1 / 2, minx = 0, miny = 0, maxx = 3, maxy = 1,
             xwidth = 3, ywidth = 1, obmap = [[False], [True], [False]]\<rparr>"

text \<open>The state after the first pass of \<open>planning(1, 0, 1, 1)\<close> on \<open>grid_B\<close> and of
  \<open>planning(0, 0, 2, 0)\<close> on \<open>grid_C\<close>.\<close>

definition pass1_B :: search_state where
  "pass1_B =
     \<lparr>openset = [(3, \<lparr>node_x = 1, node_y = 1, node_cost = 1, node_pind = 1\<rparr>),
                 (2, \<lparr>node_x = 0, node_y = 1, node_cost = sqrt 2, node_pind = 1\<rparr>)],
      closedset = [(1, \<lparr>node_x = 1, node_y = 0, node_cost = 0, node_pind = - 1\<rparr>)],
      expansion = [(1, 0)]\<rparr>"

definition pass1_C :: search_state where
  "pass1_C =
     \<lparr>openset = [],
      closedset = [(0, \<lparr>node_x = 0, node_y = 0, node_cost = 0, node_pind = - 1\<rparr>)],
      expansion = [(0, 0)]\<rparr>"

text \<open>\<open>GraphSearch([0, 3], [0, 3], 1, 0.5)\<close>: three by three cells, cell (0, 0) occupied.\<close>

definition grid_D :: GraphSearch where
  "grid_D = \<lparr>reso = 1, rr = 1 / 2, minx = 0, miny = 0, maxx = 3, maxy = 3,
             xwidth = 3, ywidth = 3,
             obmap = [[True, False, False], [False, False, False], [False, False, False]]\<rparr>"

text \<open>\<open>GraphSearch([1, 3], [3, 0], 1, 0.1)\<close>: two by three free cells; \<open>minx\<close> is 1, so
  the cell (0, 0) has the linear index \<open>-1\<close>.\<close>

definition grid_E :: GraphSearch where
  "grid_E = \<lparr>reso = 1, rr = 1 / 10, minx = 1, miny = 0, maxx = 3, maxy = 3,
             xwidth = 2, ywidth = 3,
             obmap = [[False, False, False], [False, False, False]]\<rparr>"

text \<open>The states after the first and the second pass of \<open>planning(1, 1, 2, 2)\<close> on
  \<open>grid_D\<close>.\<close>

definition pass1_D :: search_state where
  "pass1_D =
     \<lparr>openset = [(5, \<lparr>node_x = 2, node_y = 1, node_cost = 1, node_pind = 4\<rparr>),
                 (7, \<lparr>node_x = 1, node_y = 2, node_cost = 1, node_pind = 4\<rparr>),
                 (3, \<lparr>node_x = 0, node_y = 1, node_cost = 1, node_pind = 4\<rparr>),
                 (1, \<lparr>node_x = 1, node_y = 0, node_cost = 1, node_pind = 4\<rparr>),
                 (6, \<lparr>node_x = 0, node_y = 2, node_cost = sqrt 2, node_pind = 4\<rparr>),
                 (2, \<lparr>node_x = 2, node_y = 0, node_cost = sqrt 2, node_pind = 4\<rparr>),
                 (8, \<lparr>node_x = 2, node_y = 2, node_cost = sqrt 2, node_pind = 4\<rparr>)],
      closedset = [(4, \<lparr>node_x = 1, node_y = 1, node_cost = 0, node_pind = - 1\<rparr>)],
      expansion = [(1, 1)]\<rparr>"

definition pass2_D :: search_state where
  "pass2_D =
     \<lparr>openset = [(7, \<lparr>node_x = 1, node_y = 2, node_cost = 1, node_pind = 4\<rparr>),
                 (3, \<lparr>node_x = 0, node_y = 1, node_cost = 1, node_pind = 4\<rparr>),
                 (1, \<lparr>node_x = 1, node_y = 0, node_cost = 1, node_pind = 4\<rparr>),
                 (6, \<lparr>node_x = 0, node_y = 2, node_cost = sqrt 2, node_pind = 4\<rparr>),
                 (2, \<lparr>node_x = 2, node_y = 0, node_cost = sqrt 2, node_pind = 4\<rparr>),
                 (8, \<lparr>node_x = 2, node_y = 2, node_cost = sqrt 2, node_pind = 4\<rparr>)],
      closedset = [(4, \<lparr>node_x = 1, node_y = 1, node_cost = 0, node_pind = - 1\<rparr>),
                   (5, \<lparr>node_x = 2, node_y = 1, node_cost = 1, node_pind = 4\<rparr>)],
      expansion = [(1, 1), (2, 1)]\<rparr>"

section \<open>Evaluation\<close>

text \<open>The distance test without the square root, for evaluation.\<close>

lemma sqrt_le_iff_square:
  assumes "0 \<le> a"
  shows "sqrt a \<le> r \<longleftrightarrow> 0 \<le> r \<and> a \<le> r\<^sup>2"
proof
  assume h: "sqrt a \<le> r"
  have n: "0 \<le> sqrt a" using assms by simp
  with h have "0 \<le> r" by linarith
  moreover from h n have "(sqrt a)\<^sup>2 \<le> r\<^sup>2" by (rule power_mono)
  ultimately show "0 \<le> r \<and> a \<le> r\<^sup>2" using assms by simp
next
  assume "0 \<le> r \<and> a \<le> r\<^sup>2"
  then show "sqrt a \<le> r" by (simp add: real_le_lsqrt)
qed

lemma hits_Cons_sq:
  "hits rad cx cy ((iox, ioy) # ps) =
     (if 0 \<le> rad \<and> (iox - cx)\<^sup>2 + (ioy - cy)\<^sup>2 \<le> rad\<^sup>2 then True
      else hits rad cx cy ps)"
  by (simp add: sqrt_le_iff_square)

lemmas eval_grid =
  GraphSearch_init_def calc_obstacle_map_def py_min_def py_max_def py_round_def Let_def
  mark_column_def calc_position_def hits_Cons_sq upt_conv_Cons numeral_2_eq_2 numeral_3_eq_3

lemmas eval_plan =
  planning_def run_search_def calc_xyindex_def py_round_def start_state_def search.simps
  iteration_def min_key_def calc_index_def get_motion_model_def expand_one_def
  verify_node_def calc_position_def py_get_def calc_final_path_def final_loop.simps

lemma init_grid_A: "GraphSearch_init [0, 9] [0, 9] 4 1 = Inr grid_A"
  by (simp add: eval_grid grid_A_def del: hits.simps(2))

lemma init_grid_B: "GraphSearch_init [0, 2] [0, 2] 1 (1 / 2) = Inr grid_B"
  by (simp add: eval_grid grid_B_def del: hits.simps(2))

lemma init_grid_C: "GraphSearch_init [1, 0, 3] [0, 1, 1] 1 (1 / 2) = Inr grid_C"
  by (simp add: eval_grid grid_C_def del: hits.simps(2))

lemmas eval_pass =
  start_state_def iteration_def min_key_def calc_index_def get_motion_model_def
  expand_one_def verify_node_def calc_position_def py_get_def

lemma xyindex_B:
  "calc_xyindex grid_B 0 (minx grid_B) = Inr 0" "calc_xyindex grid_B 1 (minx grid_B) = Inr 1"
  "calc_xyindex grid_B 0 (miny grid_B) = Inr 0" "calc_xyindex grid_B 1 (miny grid_B) = Inr 1"
  by (simp_all add: calc_xyindex_def py_round_def grid_B_def)

lemma xyindex_C:
  "calc_xyindex grid_C 0 (minx grid_C) = Inr 0" "calc_xyindex grid_C 2 (minx grid_C) = Inr 2"
  "calc_xyindex grid_C 0 (miny grid_C) = Inr 0"
  by (simp_all add: calc_xyindex_def py_round_def grid_C_def)

lemma iteration_B:
  "iteration grid_B \<lparr>node_x = 1, node_y = 1, node_cost = 0, node_pind = - 1\<rparr>
     (start_state grid_B \<lparr>node_x = 1, node_y = 0, node_cost = 0, node_pind = - 1\<rparr>)
   = Next pass1_B"
  by (simp add: eval_pass grid_B_def pass1_B_def)

lemma iteration_C:
  "iteration grid_C \<lparr>node_x = 2, node_y = 0, node_cost = 0, node_pind = - 1\<rparr>
     (start_state grid_C \<lparr>node_x = 0, node_y = 0, node_cost = 0, node_pind = - 1\<rparr>)
   = Next pass1_C"
  by (simp add: eval_pass grid_C_def pass1_C_def)

lemma plan_B_10_11: "planning grid_B 1 0 1 1 = Some (Inr ([1, 1], [1, 0], [(1, 0), (1, 1)]))"
  by (simp add: eval_plan grid_B_def)

lemma verify_B_10:
  "verify_node grid_B \<lparr>node_x = 1, node_y = 0, node_cost = 0, node_pind = - 1\<rparr> = Inr True"
  by (simp add: grid_B_def verify_node_def calc_position_def py_get_def)

lemma verify_B_00:
  "verify_node grid_B \<lparr>node_x = 0, node_y = 0, node_cost = 0, node_pind = - 1\<rparr> = Inr False"
  by (simp add: grid_B_def verify_node_def calc_position_def py_get_def)

lemma init_grid_D: "GraphSearch_init [0, 3] [0, 3] 1 (1 / 2) = Inr grid_D"
  by (simp add: eval_grid grid_D_def del: hits.simps(2))

lemma init_grid_E: "GraphSearch_init [1, 3] [3, 0] 1 (1 / 10) = Inr grid_E"
  by (simp add: eval_grid grid_E_def del: hits.simps(2))

lemma sqrt_2_less_2: "\<not> 2 < sqrt 2"
proof -
  have "sqrt 2 < 2" by (rule real_less_lsqrt) simp_all
  then show ?thesis by simp
qed

lemma xyindex_D:
  "calc_xyindex grid_D 1 (minx grid_D) = Inr 1" "calc_xyindex grid_D 2 (minx grid_D) = Inr 2"
  "calc_xyindex grid_D 1 (miny grid_D) = Inr 1" "calc_xyindex grid_D 2 (miny grid_D) = Inr 2"
  by (simp_all add: calc_xyindex_def py_round_def grid_D_def)

lemma iteration_D1:
  "iteration grid_D \<lparr>node_x = 2, node_y = 2, node_cost = 0, node_pind = - 1\<rparr>
     (start_state grid_D \<lparr>node_x = 1, node_y = 1, node_cost = 0, node_pind = - 1\<rparr>)
   = Next pass1_D"
  by (simp add: eval_pass grid_D_def pass1_D_def)

lemma iteration_D2:
  "iteration grid_D \<lparr>node_x = 2, node_y = 2, node_cost = 0, node_pind = - 1\<rparr> pass1_D
   = Next pass2_D"
  by (simp add: eval_pass grid_D_def pass1_D_def pass2_D_def sqrt_2_less_2)

lemma plan_D_11_22:
  "planning grid_D 1 1 2 2 =
     Some (Inr ([2, 1], [2, 1],
                [(1, 1), (2, 1), (1, 2), (0, 1), (1, 0), (0, 2), (2, 0), (2, 2)]))"
  by (simp add: eval_plan grid_D_def sqrt_2_less_2)

lemma plan_E_10_21:
  "planning grid_E 1 0 2 1 = Some (Inr ([2], [1], [(1, 0), (2, 0), (1, 1), (2, 1)]))"
  by (simp add: eval_plan grid_E_def sqrt_2_less_2)

text \<open>On \<open>grid_E\<close> the start cell of \<open>planning(1, 0, 2, 1)\<close> is free and has the linear
  index \<open>-1\<close>, the value that marks the start node's parent.  The goal is reached
  through it, the path loop stops at once, and the returned path is the goal alone.\<close>

lemma sentinel_start_cuts_path:
  "calc_xyindex grid_E 1 (minx grid_E) = Inr 0 \<and> calc_xyindex grid_E 0 (miny grid_E) = Inr 0
   \<and> verify_node grid_E \<lparr>node_x = 0, node_y = 0, node_cost = 0, node_pind = - 1\<rparr> = Inr True
   \<and> calc_index grid_E \<lparr>node_x = 0, node_y = 0, node_cost = 0, node_pind = - 1\<rparr> = - 1
   \<and> planning grid_E 1 0 2 1 = Some (Inr ([2], [1], [(1, 0), (2, 0), (1, 1), (2, 1)]))
   \<and> last [2 :: real] \<noteq> calc_position grid_E 0 (minx grid_E)"
  using plan_E_10_21
  by (simp add: calc_xyindex_def py_round_def verify_node_def calc_position_def py_get_def
      calc_index_def grid_E_def)

section \<open>The occupancy grid\<close>

subsection \<open>Rounding and the bounding box\<close>

lemma py_round_nearest: "\<bar>of_int (py_round r) - r\<bar> \<le> 1 / 2"
proof -
  have "of_int \<lfloor>r\<rfloor> \<le> r" "r < of_int \<lfloor>r\<rfloor> + 1" by linarith+
  then show ?thesis
    by (auto simp: py_round_def Let_def)
qed

lemma py_min_Min: "xs \<noteq> [] \<Longrightarrow> py_min xs = Inr (Min (set xs))"
proof -
  have e: "(\<lambda>v best. if v < best then v else best) = (min :: real \<Rightarrow> real \<Rightarrow> real)"
    by (auto simp: fun_eq_iff min_def)
  show "xs \<noteq> [] \<Longrightarrow> py_min xs = Inr (Min (set xs))"
    by (cases xs) (simp_all add: py_min_def e Min.set_eq_fold[symmetric] del: Min_insert)
qed

lemma py_max_Max: "xs \<noteq> [] \<Longrightarrow> py_max xs = Inr (Max (set xs))"
proof -
  have e: "(\<lambda>v best. if best < v then v else best) = (max :: real \<Rightarrow> real \<Rightarrow> real)"
    by (auto simp: fun_eq_iff max_def)
  show "xs \<noteq> [] \<Longrightarrow> py_max xs = Inr (Max (set xs))"
    by (cases xs) (simp_all add: py_max_def e Max.set_eq_fold[symmetric] del: Max_insert)
qed

text \<open>
  C6, as the spec states it: the grid is \<open>ceil((max - min) / resolution)\<close> cells wide
  and high.  The code calls \<open>round\<close>: for the obstacles (0, 0) and (9, 9) at
  resolution 4 the quotient is 2.25, the grid is 2 cells wide, and the ceiling is 3.
\<close>

theorem width_is_not_the_ceiling:
  "GraphSearch_init [0, 9] [0, 9] 4 1 = Inr grid_A
   \<and> xwidth grid_A = 2
   \<and> \<lceil>real_of_int (maxx grid_A - minx grid_A) / reso grid_A\<rceil> = 3"
proof -
  have "\<lceil>real_of_int (maxx grid_A - minx grid_A) / reso grid_A\<rceil> = 3"
    by (simp add: grid_A_def)
  moreover have "xwidth grid_A = 2" by (simp add: grid_A_def)
  ultimately show ?thesis using init_grid_A by (intro conjI)
qed

text \<open>
  C6, amended: for a non-empty obstacle set and a positive resolution the
  constructor succeeds, the bounds are the rounded extremes of the obstacle
  coordinates, and width and height are \<open>round((max - min) / resolution)\<close>, the
  nearest integer with ties to even, hence within one half of the quotient.
\<close>

theorem grid_dimensions_rounded:
  assumes "ox \<noteq> []" and "oy \<noteq> []" and "0 < res"
  shows "\<exists>g. GraphSearch_init ox oy res rad = Inr g
           \<and> minx g = py_round (Min (set ox)) \<and> maxx g = py_round (Max (set ox))
           \<and> miny g = py_round (Min (set oy)) \<and> maxy g = py_round (Max (set oy))
           \<and> xwidth g = py_round (of_int (maxx g - minx g) / res)
           \<and> ywidth g = py_round (of_int (maxy g - miny g) / res)
           \<and> \<bar>of_int (xwidth g) - of_int (maxx g - minx g) / res\<bar> \<le> 1 / 2
           \<and> \<bar>of_int (ywidth g) - of_int (maxy g - miny g) / res\<bar> \<le> 1 / 2"
proof -
  define g where "g = (case GraphSearch_init ox oy res rad of Inr g \<Rightarrow> g)"
  have i: "GraphSearch_init ox oy res rad = Inr g"
    and f: "minx g = py_round (Min (set ox))" "maxx g = py_round (Max (set ox))"
       "miny g = py_round (Min (set oy))" "maxy g = py_round (Max (set oy))"
       "xwidth g = py_round (of_int (maxx g - minx g) / res)"
       "ywidth g = py_round (of_int (maxy g - miny g) / res)"
    using assms unfolding g_def
    by (simp_all add: GraphSearch_init_def calc_obstacle_map_def py_min_Min py_max_Max Let_def)
  have "\<bar>of_int (xwidth g) - of_int (maxx g - minx g) / res\<bar> \<le> 1 / 2"
       "\<bar>of_int (ywidth g) - of_int (maxy g - miny g) / res\<bar> \<le> 1 / 2"
    unfolding f(5,6) by (rule py_round_nearest)+
  with i f show ?thesis by blast
qed

theorem grid_dimensions_rounded_witness:
  "[0, 9] \<noteq> ([] :: real list) \<and> (0 :: real) < 4
   \<and> (\<exists>g. GraphSearch_init [0, 9] [0, 9] 4 1 = Inr g
           \<and> minx g = py_round (Min (set [0, 9])) \<and> maxx g = py_round (Max (set [0, 9]))
           \<and> miny g = py_round (Min (set [0, 9])) \<and> maxy g = py_round (Max (set [0, 9]))
           \<and> xwidth g = py_round (of_int (maxx g - minx g) / 4)
           \<and> ywidth g = py_round (of_int (maxy g - miny g) / 4)
           \<and> \<bar>real_of_int (xwidth g) - real_of_int (maxx g - minx g) / 4\<bar> \<le> 1 / 2
           \<and> \<bar>real_of_int (ywidth g) - real_of_int (maxy g - miny g) / 4\<bar> \<le> 1 / 2)"
proof -
  have h: "[0, 9] \<noteq> ([] :: real list)" "(0 :: real) < 4" by simp_all
  from grid_dimensions_rounded [OF h(1) h(1) h(2), of 1] show ?thesis
    by (intro conjI h)
qed

subsection \<open>The obstacle map\<close>

lemma hits_iff:
  "hits rad cx cy ps \<longleftrightarrow> (\<exists>(a, b) \<in> set ps. sqrt ((a - cx)\<^sup>2 + (b - cy)\<^sup>2) \<le> rad)"
  by (induction rad cx cy ps rule: hits.induct) auto

lemma mark_rows:
  assumes "ix < length om"
  shows "length (fold (\<lambda>iy m. if cell_hit g ps ix iy then m[ix := (m ! ix)[iy := True]] else m)
                  [0..<n] om) = length om
       \<and> (\<forall>i<length om. length (fold (\<lambda>iy m. if cell_hit g ps ix iy then m[ix := (m ! ix)[iy := True]] else m)
                  [0..<n] om ! i) = length (om ! i))
       \<and> (\<forall>i<length om. \<forall>j<length (om ! i).
             fold (\<lambda>iy m. if cell_hit g ps ix iy then m[ix := (m ! ix)[iy := True]] else m)
                  [0..<n] om ! i ! j
             = ((i = ix \<and> j < n \<and> cell_hit g ps ix j) \<or> om ! i ! j))"
proof (induction n)
  case 0
  then show ?case by simp
next
  case (Suc n)
  let ?F = "\<lambda>iy m. if cell_hit g ps ix iy then m[ix := (m ! ix)[iy := True]] else m"
  define m where "m = fold ?F [0..<n] om"
  have s: "fold ?F [0..<Suc n] om = ?F n m" by (simp add: m_def)
  from Suc have l: "length m = length om"
    and r: "\<And>i. i < length om \<Longrightarrow> length (m ! i) = length (om ! i)"
    and v: "\<And>i j. i < length om \<Longrightarrow> j < length (om ! i) \<Longrightarrow>
              m ! i ! j = ((i = ix \<and> j < n \<and> cell_hit g ps ix j) \<or> om ! i ! j)"
    unfolding m_def by blast+
  have "length (?F n m) = length om" using l by simp
  moreover have "length (?F n m ! i) = length (om ! i)" if "i < length om" for i
    using that l r[OF that] by (cases "i = ix") auto
  moreover have "?F n m ! i ! j = ((i = ix \<and> j < Suc n \<and> cell_hit g ps ix j) \<or> om ! i ! j)"
    if "i < length om" "j < length (om ! i)" for i j
  proof (cases "cell_hit g ps ix n")
    case False
    then show ?thesis using v[OF that] by (auto simp: less_Suc_eq)
  next
    case True
    show ?thesis
    proof (cases "i = ix")
      case False
      then show ?thesis using True v[OF that] l that by simp
    next
      case ix: True
      have "?F n m ! i ! j = (m ! ix)[n := True] ! j"
        using True ix l that by simp
      also have "\<dots> = (if j = n then True else m ! ix ! j)"
        using that r[OF that(1)] ix by (simp add: nth_list_update)
      finally show ?thesis using v[OF that] True ix by (auto simp: less_Suc_eq)
    qed
  qed
  ultimately show ?case unfolding s by blast
qed

lemma mark_column_eq:
  "mark_column g ps ix om =
     fold (\<lambda>iy m. if cell_hit g ps ix iy then m[ix := (m ! ix)[iy := True]] else m)
          [0..<nat (ywidth g)] om"
  by (simp add: mark_column_def cell_hit_def)

lemma mark_columns:
  assumes "w \<le> length om"
  shows "length (fold (mark_column g ps) [0..<w] om) = length om
       \<and> (\<forall>i<length om. length (fold (mark_column g ps) [0..<w] om ! i) = length (om ! i))
       \<and> (\<forall>i<length om. \<forall>j<length (om ! i).
             fold (mark_column g ps) [0..<w] om ! i ! j
             = ((i < w \<and> j < nat (ywidth g) \<and> cell_hit g ps i j) \<or> om ! i ! j))"
  using assms
proof (induction w)
  case 0
  then show ?case by simp
next
  case (Suc w)
  let ?m = "fold (mark_column g ps) [0..<w] om"
  have s: "fold (mark_column g ps) [0..<Suc w] om = mark_column g ps w ?m" by simp
  from Suc have l: "length ?m = length om"
    and r: "\<forall>i<length om. length (?m ! i) = length (om ! i)"
    and v: "\<forall>i<length om. \<forall>j<length (om ! i).
              ?m ! i ! j = ((i < w \<and> j < nat (ywidth g) \<and> cell_hit g ps i j) \<or> om ! i ! j)"
    by simp_all
  from Suc.prems l have w: "w < length ?m" by simp
  note m = mark_rows[OF w, of g ps "nat (ywidth g)", folded mark_column_eq]
  show ?case unfolding s
    using m l r v by (auto simp: less_Suc_eq)
qed

lemma calc_obstacle_map_Inr:
  assumes "calc_obstacle_map res rad ox oy = Inr g"
  obtains g0 where
    "obmap g0 = replicate (nat (xwidth g0)) (replicate (nat (ywidth g0)) False)"
    "g = g0\<lparr>obmap := fold (mark_column g0 (zip ox oy)) [0..<nat (xwidth g0)] (obmap g0)\<rparr>"
proof -
  define base where "base = (\<lambda>lox loy hix hiy.
     \<lparr>reso = res, rr = rad, minx = py_round lox, miny = py_round loy,
      maxx = py_round hix, maxy = py_round hiy,
      xwidth = py_round (of_int (py_round hix - py_round lox) / res),
      ywidth = py_round (of_int (py_round hiy - py_round loy) / res),
      obmap = replicate (nat (py_round (of_int (py_round hix - py_round lox) / res)))
                (replicate (nat (py_round (of_int (py_round hiy - py_round loy) / res))) False)\<rparr>)"
  have "calc_obstacle_map res rad ox oy =
     (case py_min ox of Inl e \<Rightarrow> Inl e | Inr lox \<Rightarrow>
     (case py_min oy of Inl e \<Rightarrow> Inl e | Inr loy \<Rightarrow>
     (case py_max ox of Inl e \<Rightarrow> Inl e | Inr hix \<Rightarrow>
     (case py_max oy of Inl e \<Rightarrow> Inl e | Inr hiy \<Rightarrow>
        if res = 0 then Inl ZeroDivisionError
        else Inr ((base lox loy hix hiy)\<lparr>obmap :=
                fold (mark_column (base lox loy hix hiy) (zip ox oy))
                  [0..<nat (xwidth (base lox loy hix hiy))] (obmap (base lox loy hix hiy))\<rparr>)))))"
    by (simp add: calc_obstacle_map_def Let_def base_def split: sum.splits)
  with assms obtain lox loy hix hiy where
    g: "g = (base lox loy hix hiy)\<lparr>obmap :=
                fold (mark_column (base lox loy hix hiy) (zip ox oy))
                  [0..<nat (xwidth (base lox loy hix hiy))] (obmap (base lox loy hix hiy))\<rparr>"
    by (auto split: sum.splits if_splits)
  have "obmap (base lox loy hix hiy) =
      replicate (nat (xwidth (base lox loy hix hiy))) (replicate (nat (ywidth (base lox loy hix hiy))) False)"
    by (simp add: base_def)
  then show ?thesis using g by (rule that)
qed

text \<open>
  C5: in the grid the constructor returns, every cell \<open>(ix, iy)\<close> with
  \<open>0 \<le> ix < xwidth\<close> and \<open>0 \<le> iy < ywidth\<close> is inside the map, and it is
  marked occupied exactly when some obstacle point \<open>(ox[i], oy[i])\<close> lies within
  \<open>rr\<close> (Euclidean distance) of the cell's position
  \<open>(calc_position ix minx, calc_position iy miny)\<close>.
\<close>

theorem obstacle_map_marks_cells_within_radius:
  assumes "GraphSearch_init ox oy res rad = Inr g"
    and "0 \<le> ix" and "ix < xwidth g" and "0 \<le> iy" and "iy < ywidth g"
  shows "nat ix < length (obmap g) \<and> nat iy < length (obmap g ! nat ix)
       \<and> (obmap g ! nat ix ! nat iy
            \<longleftrightarrow> (\<exists>(a, b) \<in> set (zip ox oy).
                   sqrt ((a - calc_position g ix (minx g))\<^sup>2
                         + (b - calc_position g iy (miny g))\<^sup>2) \<le> rr g))"
proof -
  obtain g0 where
    g0: "obmap g0 = replicate (nat (xwidth g0)) (replicate (nat (ywidth g0)) False)"
    and g: "g = g0\<lparr>obmap := fold (mark_column g0 (zip ox oy)) [0..<nat (xwidth g0)] (obmap g0)\<rparr>"
    by (rule calc_obstacle_map_Inr[OF assms(1)[unfolded GraphSearch_init_def]])
  have w: "nat (xwidth g0) \<le> length (obmap g0)" by (simp add: g0)
  note m = mark_columns[OF w, of g0 "zip ox oy"]
  have xw: "xwidth g = xwidth g0" "ywidth g = ywidth g0"
    and ob: "obmap g = fold (mark_column g0 (zip ox oy)) [0..<nat (xwidth g0)] (obmap g0)"
    by (simp_all add: g)
  have i: "nat ix < length (obmap g0)" "nat iy < length (obmap g0 ! nat ix)"
    using assms(2-5) xw by (simp_all add: g0)
  have "obmap g ! nat ix ! nat iy = cell_hit g0 (zip ox oy) (nat ix) (nat iy)"
    using m i assms(2-5) xw unfolding ob by (simp add: g0)
  moreover have "cell_hit g0 (zip ox oy) (nat ix) (nat iy)
     \<longleftrightarrow> (\<exists>(a, b) \<in> set (zip ox oy).
                   sqrt ((a - calc_position g ix (minx g))\<^sup>2
                         + (b - calc_position g iy (miny g))\<^sup>2) \<le> rr g)"
    using assms(2,4) by (simp add: cell_hit_def hits_iff g calc_position_def)
  moreover have "nat ix < length (obmap g)" "nat iy < length (obmap g ! nat ix)"
    using m i unfolding ob by simp_all
  ultimately show ?thesis by simp
qed

theorem obstacle_map_marks_cells_within_radius_witness:
  "GraphSearch_init [0, 2] [0, 2] 1 (1 / 2) = Inr grid_B
   \<and> (0 :: int) \<le> 0 \<and> 0 < xwidth grid_B \<and> 0 < ywidth grid_B
   \<and> nat 0 < length (obmap grid_B) \<and> nat 0 < length (obmap grid_B ! nat 0)
   \<and> (obmap grid_B ! nat 0 ! nat 0
        \<longleftrightarrow> (\<exists>(a, b) \<in> set (zip [0, 2] [0, 2]).
               sqrt ((a - calc_position grid_B 0 (minx grid_B))\<^sup>2
                     + (b - calc_position grid_B 0 (miny grid_B))\<^sup>2) \<le> rr grid_B))"
proof -
  have h: "(0 :: int) \<le> 0" "0 < xwidth grid_B" "0 < ywidth grid_B"
    by (simp_all add: grid_B_def)
  from obstacle_map_marks_cells_within_radius [OF init_grid_B h(1) h(2) h(1) h(3)]
  show ?thesis using init_grid_B h by (intro conjI) blast+
qed

subsection \<open>The cell test\<close>

text \<open>
  C10 (the code faults): on \<open>grid_A\<close> the node (2, 0) lies at x = 8 < 9 and y = 0, so
  it passes the four positional checks of \<open>verify_node\<close>, but the map has only
  \<open>xwidth = round(2.25) = 2\<close> columns and \<open>obmap[2]\<close> raises \<open>IndexError\<close>.
\<close>

theorem verify_node_index_fault:
  "GraphSearch_init [0, 9] [0, 9] 4 1 = Inr grid_A
   \<and> real_of_int (minx grid_A) \<le> calc_position grid_A 2 (minx grid_A)
   \<and> calc_position grid_A 2 (minx grid_A) < real_of_int (maxx grid_A)
   \<and> real_of_int (miny grid_A) \<le> calc_position grid_A 0 (miny grid_A)
   \<and> calc_position grid_A 0 (miny grid_A) < real_of_int (maxy grid_A)
   \<and> xwidth grid_A = 2
   \<and> verify_node grid_A \<lparr>node_x = 2, node_y = 0, node_cost = 1, node_pind = 1\<rparr>
       = Inl IndexError"
proof -
  have "real_of_int (minx grid_A) \<le> calc_position grid_A 2 (minx grid_A)
   \<and> calc_position grid_A 2 (minx grid_A) < real_of_int (maxx grid_A)
   \<and> real_of_int (miny grid_A) \<le> calc_position grid_A 0 (miny grid_A)
   \<and> calc_position grid_A 0 (miny grid_A) < real_of_int (maxy grid_A)
   \<and> xwidth grid_A = 2
   \<and> verify_node grid_A \<lparr>node_x = 2, node_y = 0, node_cost = 1, node_pind = 1\<rparr>
       = Inl IndexError"
    by (simp add: grid_A_def verify_node_def calc_position_def py_get_def)
  with init_grid_A show ?thesis by (intro conjI) simp_all
qed

section \<open>Selection from the frontier\<close>

lemma fold_best:
  assumes "fold (\<lambda>(k', n') (bk, bc). if node_cost n' < bc then (k', node_cost n') else (bk, bc))
             rest (bk, bc) = (k, c)"
  shows "(k = bk \<and> c = bc \<and> (\<forall>j<length rest. bc \<le> node_cost (snd (rest ! j))))
       \<or> (\<exists>i<length rest. k = fst (rest ! i) \<and> c = node_cost (snd (rest ! i)) \<and> c < bc
             \<and> (\<forall>j<i. c < node_cost (snd (rest ! j)))
             \<and> (\<forall>j<length rest. c \<le> node_cost (snd (rest ! j))))"
  using assms
proof (induction rest arbitrary: bk bc)
  case Nil
  then show ?case by simp
next
  case (Cons e rest)
  obtain k1 n1 where e: "e = (k1, n1)" by (cases e)
  let ?f = "\<lambda>(k', n') (bk, bc). if node_cost n' < bc then (k', node_cost n') else (bk, bc)"
  show ?case
  proof (cases "node_cost n1 < bc")
    case True
    with Cons.prems e have f: "fold ?f rest (k1, node_cost n1) = (k, c)" by simp
    from Cons.IH[OF f] show ?thesis
    proof
      assume a: "k = k1 \<and> c = node_cost n1
                 \<and> (\<forall>j<length rest. node_cost n1 \<le> node_cost (snd (rest ! j)))"
      have "0 < length (e # rest) \<and> k = fst ((e # rest) ! 0)
             \<and> c = node_cost (snd ((e # rest) ! 0)) \<and> c < bc
             \<and> (\<forall>j<0. c < node_cost (snd ((e # rest) ! j)))
             \<and> (\<forall>j<length (e # rest). c \<le> node_cost (snd ((e # rest) ! j)))"
        using a True e by (auto simp: nth_Cons split: nat.splits)
      then show ?thesis by blast
    next
      assume "\<exists>i<length rest. k = fst (rest ! i) \<and> c = node_cost (snd (rest ! i))
             \<and> c < node_cost n1
             \<and> (\<forall>j<i. c < node_cost (snd (rest ! j)))
             \<and> (\<forall>j<length rest. c \<le> node_cost (snd (rest ! j)))"
      then obtain i where i: "i < length rest" "k = fst (rest ! i)"
         "c = node_cost (snd (rest ! i))" "c < node_cost n1"
         "\<forall>j<i. c < node_cost (snd (rest ! j))"
         "\<forall>j<length rest. c \<le> node_cost (snd (rest ! j))" by blast
      have "Suc i < length (e # rest) \<and> k = fst ((e # rest) ! Suc i)
             \<and> c = node_cost (snd ((e # rest) ! Suc i)) \<and> c < bc
             \<and> (\<forall>j<Suc i. c < node_cost (snd ((e # rest) ! j)))
             \<and> (\<forall>j<length (e # rest). c \<le> node_cost (snd ((e # rest) ! j)))"
        using i True e by (auto simp: nth_Cons split: nat.splits)
      then show ?thesis by blast
    qed
  next
    case False
    with Cons.prems e have f: "fold ?f rest (bk, bc) = (k, c)" by simp
    from Cons.IH[OF f] show ?thesis
    proof
      assume a: "k = bk \<and> c = bc \<and> (\<forall>j<length rest. bc \<le> node_cost (snd (rest ! j)))"
      then show ?thesis using False e by (auto simp: nth_Cons split: nat.splits)
    next
      assume "\<exists>i<length rest. k = fst (rest ! i) \<and> c = node_cost (snd (rest ! i)) \<and> c < bc
             \<and> (\<forall>j<i. c < node_cost (snd (rest ! j)))
             \<and> (\<forall>j<length rest. c \<le> node_cost (snd (rest ! j)))"
      then obtain i where i: "i < length rest" "k = fst (rest ! i)"
         "c = node_cost (snd (rest ! i))" "c < bc"
         "\<forall>j<i. c < node_cost (snd (rest ! j))"
         "\<forall>j<length rest. c \<le> node_cost (snd (rest ! j))" by blast
      have "Suc i < length (e # rest) \<and> k = fst ((e # rest) ! Suc i)
             \<and> c = node_cost (snd ((e # rest) ! Suc i)) \<and> c < bc
             \<and> (\<forall>j<Suc i. c < node_cost (snd ((e # rest) ! j)))
             \<and> (\<forall>j<length (e # rest). c \<le> node_cost (snd ((e # rest) ! j)))"
        using i False e by (auto simp: nth_Cons split: nat.splits)
      then show ?thesis by blast
    qed
  qed
qed

lemma min_key_position:
  assumes "d \<noteq> []"
  shows "\<exists>i<length d. min_key d = Inr (fst (d ! i))
           \<and> (\<forall>j<length d. node_cost (snd (d ! i)) \<le> node_cost (snd (d ! j)))
           \<and> (\<forall>j<i. node_cost (snd (d ! i)) < node_cost (snd (d ! j)))"
proof -
  let ?f = "\<lambda>(k', n') (bk, bc). if node_cost n' < bc then (k', node_cost n') else (bk, bc)"
  from assms obtain k n rest where d: "d = (k, n) # rest" by (cases d) auto
  obtain k' c' where f: "fold ?f rest (k, node_cost n) = (k', c')" by (meson surj_pair)
  have mk: "min_key d = Inr k'" by (simp add: min_key_def d f)
  from fold_best[OF f] show ?thesis
  proof
    assume a: "k' = k \<and> c' = node_cost n
               \<and> (\<forall>j<length rest. node_cost n \<le> node_cost (snd (rest ! j)))"
    have "0 < length d \<and> min_key d = Inr (fst (d ! 0))
           \<and> (\<forall>j<length d. node_cost (snd (d ! 0)) \<le> node_cost (snd (d ! j)))
           \<and> (\<forall>j<0. node_cost (snd (d ! 0)) < node_cost (snd (d ! j)))"
      using a mk d by (auto simp: nth_Cons split: nat.splits)
    then show ?thesis by blast
  next
    assume "\<exists>i<length rest. k' = fst (rest ! i) \<and> c' = node_cost (snd (rest ! i))
             \<and> c' < node_cost n
             \<and> (\<forall>j<i. c' < node_cost (snd (rest ! j)))
             \<and> (\<forall>j<length rest. c' \<le> node_cost (snd (rest ! j)))"
    then obtain i where i: "i < length rest" "k' = fst (rest ! i)"
         "c' = node_cost (snd (rest ! i))" "c' < node_cost n"
         "\<forall>j<i. c' < node_cost (snd (rest ! j))"
         "\<forall>j<length rest. c' \<le> node_cost (snd (rest ! j))" by blast
    have "Suc i < length d \<and> min_key d = Inr (fst (d ! Suc i))
           \<and> (\<forall>j<length d. node_cost (snd (d ! Suc i)) \<le> node_cost (snd (d ! j)))
           \<and> (\<forall>j<Suc i. node_cost (snd (d ! Suc i)) < node_cost (snd (d ! j)))"
      using i mk d by (auto simp: nth_Cons split: nat.splits)
    then show ?thesis by blast
  qed
qed

section \<open>The search loop\<close>

subsection \<open>Dictionaries\<close>

lemma update_fresh: "k \<notin> fst ` set al \<Longrightarrow> AList.update k v al = al @ [(k, v)]"
  by (induction al) auto

lemma set_update_subset: "set (AList.update k v al) \<subseteq> insert (k, v) (set al)"
  by (induction al) auto

lemma set_delete_subset: "set (AList.delete k al) \<subseteq> set al"
  by (auto simp: AList.delete_eq)

lemma keys_delete: "fst ` set (AList.delete k al) = fst ` set al - {k}"
  by (induction al) auto

lemma min_key_Nil: "min_key [] = Inl ValueError"
  by (simp add: min_key_def)

lemma min_key_Inl: "min_key d = Inl e \<Longrightarrow> d = [] \<and> e = ValueError"
  by (cases d) (auto simp: min_key_def)

lemma min_key_Inr: "min_key d = Inr c \<Longrightarrow> c \<in> fst ` set d"
proof -
  assume a: "min_key d = Inr c"
  then have "d \<noteq> []" by (auto simp: min_key_def)
  from min_key_position[OF this] a obtain i where "i < length d" "c = fst (d ! i)"
    by auto
  then show ?thesis by simp
qed

subsection \<open>One motion\<close>

lemma expand_one_cases:
  assumes "expand_one g c cur m s = Inr s'"
  shows "closedset s' = closedset s \<and> expansion s' = expansion s
       \<and> (openset s' = openset s
          \<or> (\<exists>node. openset s' = AList.update (calc_index g node) node (openset s)
                \<and> calc_index g node \<notin> fst ` set (closedset s)
                \<and> verify_node g node = Inr True
                \<and> node_pind node = c
                \<and> node_x node = node_x cur + fst m
                \<and> node_y node = node_y cur + fst (snd m)
                \<and> node_cost node = node_cost cur + snd (snd m)
                \<and> (\<forall>old. map_of (openset s) (calc_index g node) = Some old
                      \<longrightarrow> node_cost node < node_cost old)))"
  using assms
  by (auto simp: expand_one_def Let_def split: if_splits sum.splits option.splits)

lemma entry_ok_mono: "entry_ok g nstart K k n \<Longrightarrow> K \<subseteq> K' \<Longrightarrow> entry_ok g nstart K' k n"
  by (auto simp: entry_ok_def)

lemma search_inv_expand_one:
  assumes inv: "search_inv g nstart s" and c: "c \<in> fst ` set (closedset s)"
    and e: "expand_one g c cur m s = Inr s'"
  shows "search_inv g nstart s'"
proof -
  note cs = expand_one_cases[OF e]
  then have cl: "closedset s' = closedset s" by simp
  from cs have "openset s' = openset s
          \<or> (\<exists>node. openset s' = AList.update (calc_index g node) node (openset s)
                \<and> calc_index g node \<notin> fst ` set (closedset s)
                \<and> verify_node g node = Inr True
                \<and> node_pind node = c)" by blast
  then show ?thesis
  proof
    assume "openset s' = openset s"
    with inv cl show ?thesis by (simp add: search_inv_def)
  next
    assume "\<exists>node. openset s' = AList.update (calc_index g node) node (openset s)
                \<and> calc_index g node \<notin> fst ` set (closedset s)
                \<and> verify_node g node = Inr True
                \<and> node_pind node = c"
    then obtain node where op: "openset s' = AList.update (calc_index g node) node (openset s)"
      and nc: "calc_index g node \<notin> fst ` set (closedset s)"
      and v: "verify_node g node = Inr True" and p: "node_pind node = c" by blast
    have d: "distinct (map fst (openset s'))"
      using inv by (simp add: op search_inv_def distinct_update)
    have k: "fst ` set (openset s') \<inter> fst ` set (closedset s') = {}"
      using inv nc by (auto simp: op cl search_inv_def dom_update)
    have new: "entry_ok g nstart (fst ` set (closedset s)) (calc_index g node) node"
      using v p c by (simp add: entry_ok_def)
    have "entry_ok g nstart (fst ` set (closedset s')) (fst e) (snd e)"
      if "e \<in> set (openset s')" for e
    proof -
      from that set_update_subset[of "calc_index g node" node "openset s"]
      have "e = (calc_index g node, node) \<or> e \<in> set (openset s)" by (auto simp: op)
      then show ?thesis using new inv by (auto simp: cl search_inv_def)
    qed
    with d k inv show ?thesis by (simp add: search_inv_def cl)
  qed
qed

lemma expand_frame:
  "expand g c cur ms s = Inr s' \<Longrightarrow>
     closedset s' = closedset s \<and> expansion s' = expansion s"
proof (induction ms arbitrary: s)
  case Nil
  then show ?case by simp
next
  case (Cons m ms)
  then obtain s1 where 1: "expand_one g c cur m s = Inr s1" and 2: "expand g c cur ms s1 = Inr s'"
    by (auto split: sum.splits)
  from expand_one_cases[OF 1] Cons.IH[OF 2] show ?case by simp
qed

lemma search_inv_expand:
  "search_inv g nstart s \<Longrightarrow> c \<in> fst ` set (closedset s) \<Longrightarrow>
     expand g c cur ms s = Inr s' \<Longrightarrow> search_inv g nstart s'"
proof (induction ms arbitrary: s)
  case Nil
  then show ?case by simp
next
  case (Cons m ms)
  then obtain s1 where 1: "expand_one g c cur m s = Inr s1" and 2: "expand g c cur ms s1 = Inr s'"
    by (auto split: sum.splits)
  have "search_inv g nstart s1" by (rule search_inv_expand_one[OF Cons.prems(1,2) 1])
  moreover have "c \<in> fst ` set (closedset s1)"
    using expand_one_cases[OF 1] Cons.prems(2) by simp
  ultimately show ?case using 2 by (rule Cons.IH)
qed

subsection \<open>One pass\<close>

lemma iteration_Next:
  assumes "iteration g ngoal s = Next s'"
  obtains c cur where "min_key (openset s) = Inr c" "map_of (openset s) c = Some cur"
    "\<not> (node_x cur = node_x ngoal \<and> node_y cur = node_y ngoal)"
    "expand g c cur get_motion_model
       (s\<lparr>expansion := expansion s @
              [(calc_position g (node_x cur) (minx g), calc_position g (node_y cur) (miny g))],
          openset := AList.delete c (openset s),
          closedset := AList.update c cur (closedset s)\<rparr>) = Inr s'"
  using assms
  by (auto simp: iteration_def Let_def split: sum.splits option.splits if_splits)

lemma iteration_Found:
  assumes "iteration g ngoal s = Found ng s'"
  obtains c cur where "min_key (openset s) = Inr c" "map_of (openset s) c = Some cur"
    "node_x cur = node_x ngoal" "node_y cur = node_y ngoal"
    "ng = ngoal\<lparr>node_pind := node_pind cur, node_cost := node_cost cur\<rparr>"
    "s' = s\<lparr>expansion := expansion s @
              [(calc_position g (node_x cur) (minx g), calc_position g (node_y cur) (miny g))]\<rparr>"
  using assms
  by (auto simp: iteration_def Let_def split: sum.splits option.splits if_splits)

lemma verify_node_Inl: "verify_node g n = Inl e \<Longrightarrow> e = IndexError"
  by (auto simp: verify_node_def py_get_def Let_def split: if_splits sum.splits)

lemma expand_one_Inl: "expand_one g c cur m s = Inl e \<Longrightarrow> e = IndexError"
  by (auto simp: expand_one_def Let_def dest: verify_node_Inl
      split: if_splits sum.splits option.splits)

lemma expand_Inl: "expand g c cur ms s = Inl e \<Longrightarrow> e = IndexError"
  by (induction ms arbitrary: s) (auto dest: expand_one_Inl split: sum.splits)

lemma map_of_key: "k \<in> fst ` set d \<Longrightarrow> \<exists>v. map_of d k = Some v"
  by (induction d) auto

lemma iteration_Raise:
  assumes "iteration g ngoal s = Raise e"
  shows "(openset s = [] \<and> e = ValueError) \<or> e = IndexError"
proof (cases "min_key (openset s)")
  case (Inl e')
  with assms have "e' = e" by (simp add: iteration_def)
  with min_key_Inl[OF Inl] show ?thesis by simp
next
  case (Inr c)
  from map_of_key[OF min_key_Inr[OF Inr]] obtain cur where "map_of (openset s) c = Some cur" ..
  with assms Inr show ?thesis
    by (auto simp: iteration_def Let_def dest: expand_Inl split: if_splits sum.splits)
qed

lemma iteration_empty: "openset s = [] \<Longrightarrow> iteration g ngoal s = Raise ValueError"
  by (simp add: iteration_def min_key_Nil)

lemma search_inv_pop:
  fixes ex :: "(real \<times> real) list"
  assumes inv: "search_inv g nstart s" and c: "(c, cur) \<in> set (openset s)"
  defines "s2 \<equiv> s\<lparr>expansion := ex, openset := AList.delete c (openset s),
                     closedset := AList.update c cur (closedset s)\<rparr>"
  shows "search_inv g nstart s2" and "closedset s2 = closedset s @ [(c, cur)]"
    and "c \<in> fst ` set (closedset s2)"
proof -
  from c have ck: "c \<in> fst ` set (openset s)" by force
  with inv have nc: "c \<notin> fst ` set (closedset s)" by (auto simp: search_inv_def)
  then show cl: "closedset s2 = closedset s @ [(c, cur)]"
    by (simp add: s2_def update_fresh)
  then show "c \<in> fst ` set (closedset s2)" by simp
  have op: "openset s2 = AList.delete c (openset s)" by (simp add: s2_def)
  have d1: "distinct (map fst (openset s2))"
    using inv by (simp add: op search_inv_def distinct_delete)
  have d2: "distinct (map fst (closedset s2))"
    using inv nc by (simp add: cl search_inv_def)
  have k: "fst ` set (openset s2) \<inter> fst ` set (closedset s2) = {}"
    using inv by (auto simp: op cl keys_delete search_inv_def)
  have o: "entry_ok g nstart (fst ` set (closedset s2)) (fst e) (snd e)"
    if "e \<in> set (openset s2)" for e
  proof -
    from that set_delete_subset[of c "openset s"] have "e \<in> set (openset s)" by (auto simp: op)
    with inv have "entry_ok g nstart (fst ` set (closedset s)) (fst e) (snd e)"
      by (simp add: search_inv_def)
    then show ?thesis by (rule entry_ok_mono) (auto simp: cl)
  qed
  have cc: "entry_ok g nstart (fst ` set (take i (closedset s2)))
             (fst (closedset s2 ! i)) (snd (closedset s2 ! i))"
    if "i < length (closedset s2)" for i
  proof (cases "i < length (closedset s)")
    case True
    with inv show ?thesis by (simp add: cl nth_append search_inv_def)
  next
    case False
    with that have i: "i = length (closedset s)" by (simp add: cl)
    from inv c have "entry_ok g nstart (fst ` set (closedset s)) c cur"
      by (force simp: search_inv_def)
    then show ?thesis by (simp add: i cl)
  qed
  from d1 d2 k o cc show "search_inv g nstart s2" by (simp add: search_inv_def)
qed

lemma search_inv_Next:
  assumes inv: "search_inv g nstart s" and it: "iteration g ngoal s = Next s'"
  shows "search_inv g nstart s'"
    and "\<exists>c cur. (c, cur) \<in> set (openset s) \<and> min_key (openset s) = Inr c
           \<and> closedset s' = closedset s @ [(c, cur)]"
proof -
  from it obtain c cur where mk: "min_key (openset s) = Inr c"
    and mo: "map_of (openset s) c = Some cur"
    and ex: "expand g c cur get_motion_model
       (s\<lparr>expansion := expansion s @
              [(calc_position g (node_x cur) (minx g), calc_position g (node_y cur) (miny g))],
          openset := AList.delete c (openset s),
          closedset := AList.update c cur (closedset s)\<rparr>) = Inr s'"
    by (rule iteration_Next)
  from mo have m: "(c, cur) \<in> set (openset s)" by (rule map_of_SomeD)
  note p = search_inv_pop[OF inv m]
  from search_inv_expand[OF p(1) p(3) ex] show "search_inv g nstart s'" .
  from expand_frame[OF ex] p(2) have "closedset s' = closedset s @ [(c, cur)]" by simp
  with m mk show "\<exists>c cur. (c, cur) \<in> set (openset s) \<and> min_key (openset s) = Inr c
           \<and> closedset s' = closedset s @ [(c, cur)]" by blast
qed

lemma search_inv_start: "search_inv g nstart (start_state g nstart)"
  by (simp add: search_inv_def start_state_def entry_ok_def)

lemma search_inv_reach:
  "reach g ngoal s0 s \<Longrightarrow> search_inv g nstart s0 \<Longrightarrow> search_inv g nstart s"
  by (induction rule: reach.induct) (auto intro: search_inv_Next(1))

subsection \<open>The order of the frontier\<close>

lemma keys_of_delete: "map fst (AList.delete k d) = removeAll k (map fst d)"
  by (induction d) auto

lemma selected_entry:
  assumes inv: "search_inv g nstart s" and ne: "openset s \<noteq> []"
  shows "\<exists>i c cur. i < length (openset s) \<and> openset s ! i = (c, cur)
           \<and> min_key (openset s) = Inr c \<and> map_of (openset s) c = Some cur
           \<and> (\<forall>j<length (openset s). node_cost cur \<le> node_cost (snd (openset s ! j)))
           \<and> (\<forall>j<i. node_cost cur < node_cost (snd (openset s ! j)))
           \<and> (\<forall>j<length (openset s). j \<noteq> i \<longrightarrow> fst (openset s ! j) \<noteq> c)"
proof -
  from min_key_position[OF ne] obtain i where i: "i < length (openset s)"
    and mk: "min_key (openset s) = Inr (fst (openset s ! i))"
    and le: "\<forall>j<length (openset s).
               node_cost (snd (openset s ! i)) \<le> node_cost (snd (openset s ! j))"
    and lt: "\<forall>j<i. node_cost (snd (openset s ! i)) < node_cost (snd (openset s ! j))"
    by blast
  obtain c cur where e: "openset s ! i = (c, cur)" by (cases "openset s ! i")
  from inv have d: "distinct (map fst (openset s))" by (simp add: search_inv_def)
  from i e have "(c, cur) \<in> set (openset s)" by (metis nth_mem)
  with d have mo: "map_of (openset s) c = Some cur" by simp
  have u: "fst (openset s ! j) \<noteq> c" if "j < length (openset s)" "j \<noteq> i" for j
  proof
    assume "fst (openset s ! j) = c"
    with e that(1) i have "map fst (openset s) ! j = map fst (openset s) ! i" by simp
    moreover from d have "(map fst (openset s) ! j = map fst (openset s) ! i) = (j = i)"
      by (rule nth_eq_iff_index_eq) (simp_all add: that(1) i)
    ultimately have "j = i" by simp
    with that(2) show False by simp
  qed
  from i e mk mo le lt u show ?thesis by (intro exI[of _ i] exI[of _ c] exI[of _ cur]) simp
qed

lemma expand_one_keys:
  assumes "expand_one g c cur m t = Inr t'"
  defines "k \<equiv> calc_index g \<lparr>node_x = node_x cur + fst m, node_y = node_y cur + fst (snd m),
                                node_cost = node_cost cur + snd (snd m), node_pind = c\<rparr>"
  shows "map fst (openset t') = map fst (openset t)
       \<or> (k \<notin> fst ` set (openset t) \<and> k \<notin> fst ` set (closedset t)
            \<and> map fst (openset t') = map fst (openset t) @ [k])"
proof (cases "k \<in> fst ` set (closedset t)")
  case True
  with assms(1) show ?thesis by (simp add: expand_one_def Let_def k_def)
next
  case False
  have u: "map fst (AList.update k v (openset t)) = map fst (openset t)
           \<or> (k \<notin> fst ` set (openset t)
                \<and> map fst (AList.update k v (openset t)) = map fst (openset t) @ [k])" for v
    by (simp add: update_keys)
  from assms(1) False have "openset t' = openset t
      \<or> (\<exists>v. openset t' = AList.update k v (openset t))"
    by (auto simp: expand_one_def Let_def k_def split: if_splits sum.splits option.splits)
  then show ?thesis
  proof
    assume "openset t' = openset t"
    then show ?thesis by simp
  next
    assume "\<exists>v. openset t' = AList.update k v (openset t)"
    then obtain v where "openset t' = AList.update k v (openset t)" ..
    with u[of v] False show ?thesis by simp
  qed
qed

lemma expand_keys:
  "expand g c cur ms t = Inr t' \<Longrightarrow>
     \<exists>fresh. map fst (openset t') = map fst (openset t) @ fresh
        \<and> set fresh \<inter> fst ` set (openset t) = {}
        \<and> set fresh \<inter> fst ` set (closedset t) = {}"
proof (induction ms arbitrary: t)
  case Nil
  then show ?case by simp
next
  case (Cons m ms)
  then obtain t1 where 1: "expand_one g c cur m t = Inr t1" and 2: "expand g c cur ms t1 = Inr t'"
    by (auto split: sum.splits)
  from expand_one_cases[OF 1] have cl: "closedset t1 = closedset t" by simp
  from Cons.IH[OF 2] obtain fresh where f: "map fst (openset t') = map fst (openset t1) @ fresh"
    and fo: "set fresh \<inter> fst ` set (openset t1) = {}"
    and fc: "set fresh \<inter> fst ` set (closedset t1) = {}" by blast
  have s1: "fst ` set (openset t1) = set (map fst (openset t1))" by simp
  from expand_one_keys[OF 1] show ?case
  proof
    assume e: "map fst (openset t1) = map fst (openset t)"
    then have "fst ` set (openset t1) = fst ` set (openset t)" by (metis set_map)
    with f fo fc e cl show ?thesis by auto
  next
    let ?k = "calc_index g \<lparr>node_x = node_x cur + fst m, node_y = node_y cur + fst (snd m),
                                node_cost = node_cost cur + snd (snd m), node_pind = c\<rparr>"
    assume "?k \<notin> fst ` set (openset t) \<and> ?k \<notin> fst ` set (closedset t)
              \<and> map fst (openset t1) = map fst (openset t) @ [?k]"
    then obtain k where k: "k \<notin> fst ` set (openset t)" "k \<notin> fst ` set (closedset t)"
      and e: "map fst (openset t1) = map fst (openset t) @ [k]" by blast
    from e have "set (map fst (openset t1)) = set (map fst (openset t) @ [k])" by simp
    then have s: "fst ` set (openset t1) = insert k (fst ` set (openset t))" by simp
    have "map fst (openset t') = map fst (openset t) @ (k # fresh)" using f e by simp
    moreover have "set (k # fresh) \<inter> fst ` set (openset t) = {}" using fo s k by auto
    moreover have "set (k # fresh) \<inter> fst ` set (closedset t) = {}" using fc cl k by auto
    ultimately show ?thesis by blast
  qed
qed

lemma pass_Next:
  assumes inv: "search_inv g nstart s" and it: "iteration g ngoal s = Next s'"
  shows "\<exists>c cur fresh. min_key (openset s) = Inr c \<and> map_of (openset s) c = Some cur
           \<and> closedset s' = closedset s @ [(c, cur)]
           \<and> expansion s' = expansion s @
                [(calc_position g (node_x cur) (minx g), calc_position g (node_y cur) (miny g))]
           \<and> map fst (openset s') = removeAll c (map fst (openset s)) @ fresh
           \<and> set fresh \<inter> fst ` set (openset s) = {}"
proof -
  from it obtain c cur where mk: "min_key (openset s) = Inr c"
    and mo: "map_of (openset s) c = Some cur"
    and ex: "expand g c cur get_motion_model
       (s\<lparr>expansion := expansion s @
              [(calc_position g (node_x cur) (minx g), calc_position g (node_y cur) (miny g))],
          openset := AList.delete c (openset s),
          closedset := AList.update c cur (closedset s)\<rparr>) = Inr s'"
    by (rule iteration_Next)
  from mo have m: "(c, cur) \<in> set (openset s)" by (rule map_of_SomeD)
  note p = search_inv_pop[OF inv m]
  from expand_frame[OF ex] p(2) have cl: "closedset s' = closedset s @ [(c, cur)]"
    and el: "expansion s' = expansion s @
                [(calc_position g (node_x cur) (minx g), calc_position g (node_y cur) (miny g))]"
    by simp_all
  from expand_keys[OF ex] obtain fresh where
    f: "map fst (openset s') = map fst (AList.delete c (openset s)) @ fresh"
    and fo: "set fresh \<inter> fst ` set (AList.delete c (openset s)) = {}"
    and fc: "set fresh \<inter> fst ` set (AList.update c cur (closedset s)) = {}" by auto
  from fc have "c \<notin> set fresh" by (auto simp: dom_update)
  with fo have "set fresh \<inter> fst ` set (openset s) = {}" by (auto simp: keys_delete)
  with mk mo cl el f show ?thesis by (auto simp: keys_of_delete)
qed

lemma frontier_order:
  "reach g ngoal s s' \<Longrightarrow> search_inv g nstart s \<Longrightarrow>
     fst ` set (openset s) \<subseteq> fst ` set (openset s') \<union> fst ` set (closedset s')
     \<and> (\<exists>kept fresh. map fst (openset s') = kept @ fresh
           \<and> set kept \<subseteq> fst ` set (openset s)
           \<and> set fresh \<inter> fst ` set (openset s) = {})"
proof (induction rule: reach.induct)
  case reach_start
  have "map fst (openset s) = map fst (openset s) @ []
          \<and> set (map fst (openset s)) \<subseteq> fst ` set (openset s)
          \<and> set [] \<inter> fst ` set (openset s) = {}" by simp
  then have "\<exists>kept fresh. map fst (openset s) = kept @ fresh
           \<and> set kept \<subseteq> fst ` set (openset s)
           \<and> set fresh \<inter> fst ` set (openset s) = {}" by (intro exI)
  then show ?case by simp
next
  case (reach_next s1 s2)
  have i1: "search_inv g nstart s1" by (rule search_inv_reach[OF reach_next(1,4)])
  have i2: "search_inv g nstart s2" by (rule search_inv_Next(1)[OF i1 reach_next(2)])
  from reach_next(3)[OF reach_next(4)] obtain kept fresh where
    sub: "fst ` set (openset s) \<subseteq> fst ` set (openset s1) \<union> fst ` set (closedset s1)"
    and k: "map fst (openset s1) = kept @ fresh" "set kept \<subseteq> fst ` set (openset s)"
      "set fresh \<inter> fst ` set (openset s) = {}" by blast
  from pass_Next[OF i1 reach_next(2)] obtain c cur fresh2 where
    cl: "closedset s2 = closedset s1 @ [(c, cur)]"
    and f: "map fst (openset s2) = removeAll c (map fst (openset s1)) @ fresh2"
    and fo: "set fresh2 \<inter> fst ` set (openset s1) = {}" by blast
  from f have "set (map fst (openset s2)) = set (removeAll c (map fst (openset s1)) @ fresh2)"
    by simp
  then have o2: "fst ` set (openset s2) = (fst ` set (openset s1) - {c}) \<union> set fresh2"
    by simp
  from cl have c2: "fst ` set (closedset s2) = insert c (fst ` set (closedset s1))" by simp
  from i2 have d2: "fst ` set (openset s2) \<inter> fst ` set (closedset s2) = {}"
    by (simp add: search_inv_def)
  have a: "fst ` set (openset s) \<subseteq> fst ` set (openset s2) \<union> fst ` set (closedset s2)"
    using sub o2 c2 by auto
  have "set fresh2 \<inter> fst ` set (closedset s1) = {}" using d2 o2 c2 by auto
  with fo sub have n: "set fresh2 \<inter> fst ` set (openset s) = {}" by blast
  have "map fst (openset s2) = removeAll c kept @ (removeAll c fresh @ fresh2)"
    using f k(1) by simp
  moreover have "set (removeAll c kept) \<subseteq> fst ` set (openset s)" using k(2) by auto
  moreover have "set (removeAll c fresh @ fresh2) \<inter> fst ` set (openset s) = {}"
    using k(3) n by auto
  ultimately show ?case using a by blast
qed

lemma expansion_log:
  "reach g ngoal s0 s \<Longrightarrow> search_inv g nstart s0 \<Longrightarrow>
     expansion s0 = map (\<lambda>e. (calc_position g (node_x (snd e)) (minx g),
                               calc_position g (node_y (snd e)) (miny g))) (closedset s0) \<Longrightarrow>
     expansion s = map (\<lambda>e. (calc_position g (node_x (snd e)) (minx g),
                              calc_position g (node_y (snd e)) (miny g))) (closedset s)"
proof (induction rule: reach.induct)
  case reach_start
  then show ?case by simp
next
  case (reach_next s1 s2)
  have i1: "search_inv g nstart s1" by (rule search_inv_reach[OF reach_next(1,4)])
  from pass_Next[OF i1 reach_next(2)] reach_next(3)[OF reach_next(4,5)]
  show ?case by auto
qed

subsection \<open>Termination of the loop\<close>

lemma py_get_Inr:
  "py_get xs i = Inr v \<Longrightarrow> - int (length xs) \<le> i \<and> i < int (length xs) \<and> v \<in> set xs"
  by (auto simp: py_get_def split: if_splits)

lemma verify_in_cell_keys:
  assumes "verify_node g n = Inr True"
  shows "calc_index g n \<in> cell_keys g"
proof -
  from assms obtain col b where c: "py_get (obmap g) (node_x n) = Inr col"
    and b: "py_get col (node_y n) = Inr b"
    by (auto simp: verify_node_def Let_def split: if_splits sum.splits)
  from py_get_Inr[OF c] have x: "node_x n \<in> {- int (length (obmap g)) ..< int (length (obmap g))}"
    and m: "col \<in> set (obmap g)" by simp_all
  from m have "length col \<le> sum_list (map length (obmap g))"
    by (simp add: member_le_sum_list)
  with py_get_Inr[OF b]
  have y: "node_y n \<in> {- int (sum_list (map length (obmap g))) ..<
                         int (sum_list (map length (obmap g)))}"
    by simp
  have "calc_index g n = (\<lambda>(i, j). (j - miny g) * xwidth g + (i - minx g)) (node_x n, node_y n)"
    by (simp add: calc_index_def)
  with x y show ?thesis unfolding cell_keys_def by blast
qed

lemma finite_cell_keys: "finite (cell_keys g)"
  by (simp add: cell_keys_def)

lemma entry_ok_key: "entry_ok g nstart K k n \<Longrightarrow> k \<in> insert (calc_index g nstart) (cell_keys g)"
  by (auto simp: entry_ok_def dest: verify_in_cell_keys)

lemma open_keys_bounded:
  "search_inv g nstart s \<Longrightarrow> fst ` set (openset s) \<subseteq> insert (calc_index g nstart) (cell_keys g)"
  by (auto simp: search_inv_def dest: entry_ok_key)

lemma remaining_decreases:
  assumes inv: "search_inv g nstart s" and it: "iteration g ngoal s = Next s'"
  shows "remaining g nstart s' < remaining g nstart s"
proof -
  from search_inv_Next(2)[OF inv it] obtain c cur where c: "(c, cur) \<in> set (openset s)"
    and cl: "closedset s' = closedset s @ [(c, cur)]" by blast
  from c have ck: "c \<in> fst ` set (openset s)" by force
  with inv have nc: "c \<notin> fst ` set (closedset s)" by (auto simp: search_inv_def)
  from ck open_keys_bounded[OF inv] have u: "c \<in> insert (calc_index g nstart) (cell_keys g)"
    by blast
  let ?U = "insert (calc_index g nstart) (cell_keys g)"
  have "?U - fst ` set (closedset s') \<subset> ?U - fst ` set (closedset s)"
    using nc u by (auto simp: cl)
  moreover have "finite (?U - fst ` set (closedset s))" by (simp add: finite_cell_keys)
  ultimately show ?thesis unfolding remaining_def by (rule psubset_card_mono[rotated])
qed

lemma reach_first:
  "reach g ngoal s1 s' \<Longrightarrow> iteration g ngoal s = Next s1 \<Longrightarrow> reach g ngoal s s'"
  by (induction rule: reach.induct) (auto intro: reach.intros)

lemma reach_trans:
  "reach g ngoal s1 s2 \<Longrightarrow> reach g ngoal s0 s1 \<Longrightarrow> reach g ngoal s0 s2"
  by (induction rule: reach.induct) (auto intro: reach.intros)

lemma search_Next: "iteration g ngoal s = Next s' \<Longrightarrow> search g ngoal s = search g ngoal s'"
  by (subst search.simps) simp

lemma search_Raise: "iteration g ngoal s = Raise e \<Longrightarrow> search g ngoal s = Some (Inl e)"
  by (subst search.simps) simp

lemma search_Found:
  "iteration g ngoal s = Found ng s' \<Longrightarrow> search g ngoal s = Some (Inr (ng, s'))"
  by (subst search.simps) simp

lemma search_reach: "reach g ngoal s s' \<Longrightarrow> search g ngoal s = search g ngoal s'"
  by (induction rule: reach.induct) (auto dest: search_Next)

lemma search_ends:
  assumes "search_inv g nstart s"
  shows "\<exists>s'. reach g ngoal s s'
           \<and> ((\<exists>e. iteration g ngoal s' = Raise e \<and> search g ngoal s = Some (Inl e))
              \<or> (\<exists>ng s''. iteration g ngoal s' = Found ng s''
                    \<and> search g ngoal s = Some (Inr (ng, s''))))"
  using assms
proof (induction "remaining g nstart s" arbitrary: s rule: less_induct)
  case less
  show ?case
  proof (cases "iteration g ngoal s")
    case (Raise e)
    with search_Raise[OF Raise] reach_start[of g ngoal s] show ?thesis by blast
  next
    case (Found ng s'')
    with search_Found[OF Found] reach_start[of g ngoal s] show ?thesis by blast
  next
    case (Next s1)
    have i1: "search_inv g nstart s1" by (rule search_inv_Next(1)[OF less.prems Next])
    have "remaining g nstart s1 < remaining g nstart s"
      by (rule remaining_decreases[OF less.prems Next])
    from less.hyps[OF this i1] obtain s' where r: "reach g ngoal s1 s'"
      and e: "(\<exists>e. iteration g ngoal s' = Raise e \<and> search g ngoal s1 = Some (Inl e))
              \<or> (\<exists>ng s''. iteration g ngoal s' = Found ng s''
                    \<and> search g ngoal s1 = Some (Inr (ng, s'')))" by blast
    from reach_first[OF r Next] e search_Next[OF Next] show ?thesis by auto
  qed
qed

subsection \<open>The path loop\<close>

lemma take_key_index:
  assumes "p \<in> fst ` set (take i cs)"
  obtains j where "j < i" "j < length cs" "fst (cs ! j) = p"
proof -
  from assms obtain e where e: "e \<in> set (take i cs)" "fst e = p" by auto
  then obtain j where "j < length (take i cs)" "take i cs ! j = e"
    by (auto simp: in_set_conv_nth)
  then have "j < i" "j < length cs" "fst (cs ! j) = p" using e by auto
  then show ?thesis by (rule that)
qed

lemma final_loop_chain:
  assumes d: "distinct (map fst cs)"
    and ok: "\<And>i. i < length cs \<Longrightarrow>
              entry_ok g nstart (fst ` set (take i cs)) (fst (cs ! i)) (snd (cs ! i))"
    and st: "node_pind nstart = - 1"
  shows "p = - 1 \<or> p \<in> fst ` set (take i cs) \<Longrightarrow>
     \<exists>ns. final_loop g cs p rx ry =
            Some (Inr (rx @ map (\<lambda>n. calc_position g (node_x n) (minx g)) ns,
                       ry @ map (\<lambda>n. calc_position g (node_y n) (miny g)) ns))
        \<and> set ns \<subseteq> snd ` set cs
        \<and> (p = - 1 \<longrightarrow> ns = [])
        \<and> (p \<noteq> - 1 \<longrightarrow> ns \<noteq> [] \<and> node_pind (last ns) = - 1)
        \<and> chain cs p ns"
proof (induction i arbitrary: p rx ry rule: less_induct)
  case (less i)
  show ?case
  proof (cases "p = - 1")
    case True
    have "final_loop g cs p rx ry = Some (Inr (rx, ry))"
      by (subst final_loop.simps) (simp add: True)
    with True show ?thesis by (intro exI[of _ "[]"]) simp
  next
    case False
    with less.prems have "p \<in> fst ` set (take i cs)" by simp
    then obtain j where j: "j < i" "j < length cs" "fst (cs ! j) = p" by (rule take_key_index)
    define n where "n = snd (cs ! j)"
    have "(p, n) \<in> set cs" using j nth_mem[of j cs] by (simp add: n_def flip: j(3))
    with d have m: "map_of cs p = Some n" by (rule map_of_is_SomeI)
    from ok[OF j(2)] have e: "entry_ok g nstart (fst ` set (take j cs)) p n"
      by (simp add: n_def j(3))
    then have "node_pind n = - 1 \<or> node_pind n \<in> fst ` set (take j cs)"
      using st by (auto simp: entry_ok_def)
    from less.IH[OF j(1) this, of "rx @ [calc_position g (node_x n) (minx g)]"
        "ry @ [calc_position g (node_y n) (miny g)]"]
    obtain ns where
      f: "final_loop g cs (node_pind n) (rx @ [calc_position g (node_x n) (minx g)])
             (ry @ [calc_position g (node_y n) (miny g)]) =
            Some (Inr ((rx @ [calc_position g (node_x n) (minx g)])
                        @ map (\<lambda>n. calc_position g (node_x n) (minx g)) ns,
                       (ry @ [calc_position g (node_y n) (miny g)])
                        @ map (\<lambda>n. calc_position g (node_y n) (miny g)) ns))"
      and s: "set ns \<subseteq> snd ` set cs"
      and a: "node_pind n = - 1 \<longrightarrow> ns = []"
      and b: "node_pind n \<noteq> - 1 \<longrightarrow> ns \<noteq> [] \<and> node_pind (last ns) = - 1"
      and c: "chain cs (node_pind n) ns"
      by blast
    have "final_loop g cs p rx ry =
            Some (Inr (rx @ map (\<lambda>n. calc_position g (node_x n) (minx g)) (n # ns),
                       ry @ map (\<lambda>n. calc_position g (node_y n) (miny g)) (n # ns)))"
      by (subst final_loop.simps) (simp add: False m f)
    moreover have "set (n # ns) \<subseteq> snd ` set cs"
      using s \<open>(p, n) \<in> set cs\<close> by force
    moreover have "node_pind (last (n # ns)) = - 1" using a b by auto
    moreover have "chain cs p (n # ns)" using False m c by simp
    ultimately show ?thesis using False by (intro exI[of _ "n # ns"]) simp
  qed
qed

subsection \<open>The whole call\<close>

lemma closed_entry:
  assumes "search_inv g nstart s" and "n \<in> snd ` set (closedset s)"
  shows "n = nstart \<or> (verify_node g n = Inr True \<and> node_pind n \<in> fst ` set (closedset s))"
proof -
  from assms(2) obtain i where i: "i < length (closedset s)" "snd (closedset s ! i) = n"
    by (auto simp: in_set_conv_nth)
  with assms(1) have "entry_ok g nstart (fst ` set (take i (closedset s)))
             (fst (closedset s ! i)) n" by (auto simp: search_inv_def)
  then show ?thesis by (auto simp: entry_ok_def dest: in_set_takeD)
qed

lemma closed_key:
  assumes "search_inv g nstart s" and "k \<in> fst ` set (closedset s)"
  shows "\<exists>n. k = calc_index g n \<and> (n = nstart \<or> verify_node g n = Inr True)"
proof -
  from assms(2) obtain i where i: "i < length (closedset s)" "fst (closedset s ! i) = k"
    by (auto simp: in_set_conv_nth)
  with assms(1) have "entry_ok g nstart (fst ` set (take i (closedset s)))
             k (snd (closedset s ! i))" by (auto simp: search_inv_def)
  then show ?thesis by (auto simp: entry_ok_def)
qed

lemma run_search_result:
  assumes st: "node_pind nstart = - 1"
  shows "\<exists>s. reach g ngoal (start_state g nstart) s \<and> search_inv g nstart s
     \<and> ((\<exists>e. iteration g ngoal s = Raise e \<and> run_search g nstart ngoal = Some (Inl e))
        \<or> (\<exists>c cur ns. (c, cur) \<in> set (openset s) \<and> min_key (openset s) = Inr c
              \<and> node_x cur = node_x ngoal \<and> node_y cur = node_y ngoal
              \<and> set ns \<subseteq> snd ` set (closedset s)
              \<and> (node_pind cur = - 1 \<longrightarrow> ns = [])
              \<and> (node_pind cur \<noteq> - 1 \<longrightarrow> ns \<noteq> [] \<and> node_pind (last ns) = - 1)
              \<and> chain (closedset s) (node_pind cur) ns
              \<and> run_search g nstart ngoal =
                  Some (Inr (calc_position g (node_x ngoal) (minx g)
                               # map (\<lambda>n. calc_position g (node_x n) (minx g)) ns,
                             calc_position g (node_y ngoal) (miny g)
                               # map (\<lambda>n. calc_position g (node_y n) (miny g)) ns,
                             expansion s @ [(calc_position g (node_x cur) (minx g),
                                             calc_position g (node_y cur) (miny g))]))))"
proof -
  have i0: "search_inv g nstart (start_state g nstart)" by (rule search_inv_start)
  from search_ends[OF i0, of ngoal] obtain s where r: "reach g ngoal (start_state g nstart) s"
    and e: "(\<exists>e. iteration g ngoal s = Raise e
                \<and> search g ngoal (start_state g nstart) = Some (Inl e))
          \<or> (\<exists>ng s''. iteration g ngoal s = Found ng s''
                \<and> search g ngoal (start_state g nstart) = Some (Inr (ng, s'')))" by blast
  have inv: "search_inv g nstart s" by (rule search_inv_reach[OF r i0])
  from e show ?thesis
  proof
    assume "\<exists>e. iteration g ngoal s = Raise e
                \<and> search g ngoal (start_state g nstart) = Some (Inl e)"
    then obtain e where "iteration g ngoal s = Raise e"
      "run_search g nstart ngoal = Some (Inl e)" by (auto simp: run_search_def)
    with r inv show ?thesis by blast
  next
    assume "\<exists>ng s''. iteration g ngoal s = Found ng s''
                \<and> search g ngoal (start_state g nstart) = Some (Inr (ng, s''))"
    then obtain ng s'' where it: "iteration g ngoal s = Found ng s''"
      and se: "search g ngoal (start_state g nstart) = Some (Inr (ng, s''))" by blast
    from it obtain c cur where mk: "min_key (openset s) = Inr c"
      and mo: "map_of (openset s) c = Some cur"
      and x: "node_x cur = node_x ngoal" and y: "node_y cur = node_y ngoal"
      and ng: "ng = ngoal\<lparr>node_pind := node_pind cur, node_cost := node_cost cur\<rparr>"
      and s'': "s'' = s\<lparr>expansion := expansion s @
              [(calc_position g (node_x cur) (minx g), calc_position g (node_y cur) (miny g))]\<rparr>"
      by (rule iteration_Found)
    from mo have m: "(c, cur) \<in> set (openset s)" by (rule map_of_SomeD)
    with inv have "entry_ok g nstart (fst ` set (closedset s)) c cur"
      by (force simp: search_inv_def)
    then have p: "node_pind cur = - 1
        \<or> node_pind cur \<in> fst ` set (take (length (closedset s)) (closedset s))"
      using st by (auto simp: entry_ok_def)
    have d: "distinct (map fst (closedset s))" using inv by (simp add: search_inv_def)
    have ok: "\<And>i. i < length (closedset s) \<Longrightarrow>
              entry_ok g nstart (fst ` set (take i (closedset s)))
                (fst (closedset s ! i)) (snd (closedset s ! i))"
      using inv by (simp add: search_inv_def)
    from final_loop_chain[OF d ok st p, of "[calc_position g (node_x ngoal) (minx g)]"
        "[calc_position g (node_y ngoal) (miny g)]"]
    obtain ns where
      f: "final_loop g (closedset s) (node_pind cur) [calc_position g (node_x ngoal) (minx g)]
            [calc_position g (node_y ngoal) (miny g)] =
            Some (Inr ([calc_position g (node_x ngoal) (minx g)]
                         @ map (\<lambda>n. calc_position g (node_x n) (minx g)) ns,
                       [calc_position g (node_y ngoal) (miny g)]
                         @ map (\<lambda>n. calc_position g (node_y n) (miny g)) ns))"
      and sub: "set ns \<subseteq> snd ` set (closedset s)"
      and a: "node_pind cur = - 1 \<longrightarrow> ns = []"
      and b: "node_pind cur \<noteq> - 1 \<longrightarrow> ns \<noteq> [] \<and> node_pind (last ns) = - 1"
      and ch: "chain (closedset s) (node_pind cur) ns"
      by blast
    have "run_search g nstart ngoal =
                  Some (Inr (calc_position g (node_x ngoal) (minx g)
                               # map (\<lambda>n. calc_position g (node_x n) (minx g)) ns,
                             calc_position g (node_y ngoal) (miny g)
                               # map (\<lambda>n. calc_position g (node_y n) (miny g)) ns,
                             expansion s @ [(calc_position g (node_x cur) (minx g),
                                             calc_position g (node_y cur) (miny g))]))"
      using f by (simp add: run_search_def se calc_final_path_def ng s'')
    with r inv m mk x y sub a b ch show ?thesis by blast
  qed
qed

subsection \<open>Facts about a call of planning\<close>

lemma planning_run:
  "calc_xyindex g sx (minx g) = Inr six \<Longrightarrow> calc_xyindex g sy (miny g) = Inr siy \<Longrightarrow>
   calc_xyindex g gx (minx g) = Inr gix \<Longrightarrow> calc_xyindex g gy (miny g) = Inr giy \<Longrightarrow>
   planning g sx sy gx gy =
     run_search g \<lparr>node_x = six, node_y = siy, node_cost = 0, node_pind = - 1\<rparr>
       \<lparr>node_x = gix, node_y = giy, node_cost = 0, node_pind = - 1\<rparr>"
  by (simp add: planning_def)

lemma planning_zero_reso: "reso g = 0 \<Longrightarrow> planning g sx sy gx gy = Some (Inl ZeroDivisionError)"
  by (simp add: planning_def calc_xyindex_def)

lemma calc_xyindex_Inr: "reso g \<noteq> 0 \<Longrightarrow> \<exists>i. calc_xyindex g p m = Inr i"
  by (simp add: calc_xyindex_def)

lemma calc_xyindex_reso: "calc_xyindex g p m = Inr i \<Longrightarrow> reso g \<noteq> 0"
  by (auto simp: calc_xyindex_def split: if_splits)

lemma run_search_total:
  "node_pind nstart = - 1 \<Longrightarrow> \<exists>r. run_search g nstart ngoal = Some r"
  using run_search_result[of nstart g ngoal] by blast

lemma run_search_empty:
  assumes "reach g ngoal (start_state g nstart) s" and "openset s = []"
  shows "run_search g nstart ngoal = Some (Inl ValueError)"
proof -
  have "search g ngoal (start_state g nstart) = search g ngoal s"
    by (rule search_reach[OF assms(1)])
  also have "\<dots> = Some (Inl ValueError)"
    by (rule search_Raise[OF iteration_empty[OF assms(2)]])
  finally show ?thesis by (simp add: run_search_def)
qed

lemma verify_node_coords:
  assumes "node_x a = node_x b" and "node_y a = node_y b"
  shows "verify_node g a = verify_node g b"
  unfolding verify_node_def assms by (rule refl)

lemma run_search_same_cell:
  assumes "node_x nstart = node_x ngoal" and "node_y nstart = node_y ngoal"
    and "node_pind nstart = - 1"
  shows "run_search g nstart ngoal =
     Some (Inr ([calc_position g (node_x ngoal) (minx g)],
                [calc_position g (node_y ngoal) (miny g)],
                [(calc_position g (node_x ngoal) (minx g),
                  calc_position g (node_y ngoal) (miny g))]))"
proof -
  have "iteration g ngoal (start_state g nstart) =
     Found (ngoal\<lparr>node_pind := - 1, node_cost := node_cost nstart\<rparr>)
       ((start_state g nstart)\<lparr>expansion :=
          [(calc_position g (node_x ngoal) (minx g), calc_position g (node_y ngoal) (miny g))]\<rparr>)"
    using assms by (simp add: iteration_def start_state_def min_key_def)
  from search_Found[OF this] show ?thesis
    by (simp add: run_search_def calc_final_path_def start_state_def final_loop.simps)
qed

lemma run_search_invalid_goal:
  assumes st: "node_pind nstart = - 1"
    and ne: "\<not> (node_x ngoal = node_x nstart \<and> node_y ngoal = node_y nstart)"
    and bad: "verify_node g ngoal \<noteq> Inr True"
  shows "\<exists>e. run_search g nstart ngoal = Some (Inl e) \<and> (e = ValueError \<or> e = IndexError)"
proof -
  from run_search_result[OF st, of g ngoal] obtain s where
    inv: "search_inv g nstart s"
    and e: "(\<exists>e. iteration g ngoal s = Raise e \<and> run_search g nstart ngoal = Some (Inl e))
        \<or> (\<exists>c cur. (c, cur) \<in> set (openset s)
              \<and> node_x cur = node_x ngoal \<and> node_y cur = node_y ngoal)"
    by blast
  from e show ?thesis
  proof
    assume "\<exists>e. iteration g ngoal s = Raise e \<and> run_search g nstart ngoal = Some (Inl e)"
    then show ?thesis using iteration_Raise by blast
  next
    assume "\<exists>c cur. (c, cur) \<in> set (openset s)
              \<and> node_x cur = node_x ngoal \<and> node_y cur = node_y ngoal"
    then obtain c cur where m: "(c, cur) \<in> set (openset s)"
      and xy: "node_x cur = node_x ngoal" "node_y cur = node_y ngoal" by blast
    from inv m have "entry_ok g nstart (fst ` set (closedset s)) c cur"
      by (force simp: search_inv_def)
    then have "cur = nstart \<or> verify_node g cur = Inr True" by (auto simp: entry_ok_def)
    then have False
    proof
      assume "cur = nstart" with xy ne show False by simp
    next
      assume "verify_node g cur = Inr True"
      with verify_node_coords[OF xy, of g] bad show False by simp
    qed
    then show ?thesis ..
  qed
qed

lemma verify_node_True:
  assumes "verify_node g n = Inr True"
  shows "of_int (minx g) \<le> calc_position g (node_x n) (minx g)
       \<and> calc_position g (node_x n) (minx g) < of_int (maxx g)
       \<and> of_int (miny g) \<le> calc_position g (node_y n) (miny g)
       \<and> calc_position g (node_y n) (miny g) < of_int (maxy g)
       \<and> (\<exists>col. py_get (obmap g) (node_x n) = Inr col \<and> py_get col (node_y n) = Inr False)"
  using assms
  by (auto simp: verify_node_def Let_def split: if_splits sum.splits)

lemma closed_keys_mono:
  "reach g ngoal s s' \<Longrightarrow> search_inv g nstart s \<Longrightarrow>
     fst ` set (closedset s) \<subseteq> fst ` set (closedset s')"
proof (induction rule: reach.induct)
  case reach_start
  then show ?case by simp
next
  case (reach_next s1 s2)
  have "search_inv g nstart s1" by (rule search_inv_reach[OF reach_next(1,4)])
  from search_inv_Next(2)[OF this reach_next(2)] obtain c cur where
    "closedset s2 = closedset s1 @ [(c, cur)]" by blast
  then have "fst ` set (closedset s1) \<subseteq> fst ` set (closedset s2)" by auto
  with reach_next(3)[OF reach_next(4)] show ?case by blast
qed

lemma no_sentinel_B:
  "\<forall>n. verify_node grid_B n = Inr True \<longrightarrow> calc_index grid_B n \<noteq> - 1"
proof (intro allI impI)
  fix n assume "verify_node grid_B n = Inr True"
  from verify_node_True[OF this] have "0 \<le> node_x n" "0 \<le> node_y n"
    by (simp_all add: grid_B_def calc_position_def)
  then show "calc_index grid_B n \<noteq> - 1"
    by (simp add: calc_index_def grid_B_def)
qed

section \<open>Properties of planning\<close>

text \<open>
  C8: at the head of every pass of the loop (every state \<open>s\<close> the loop reaches
  from the start state) no index is a key of both \<open>openset\<close> and \<open>closedset\<close>.
  An index that is in \<open>closedset\<close> at \<open>s\<close> is still there at every later pass
  \<open>s'\<close>, it is no key of \<open>openset\<close> there (it is not inserted again), and it is
  not the index that pass selects (it is not expanded again).  The same holds
  inside the pass: after the selected entry was moved to \<open>closedset\<close> and any
  number of motions were processed, the two key sets are disjoint and the closed
  indices are all still closed.
\<close>

theorem open_and_closed_stay_disjoint:
  assumes r: "reach g ngoal (start_state g nstart) s" and r': "reach g ngoal s s'"
  shows "fst ` set (openset s) \<inter> fst ` set (closedset s) = {}
       \<and> fst ` set (closedset s) \<subseteq> fst ` set (closedset s')
       \<and> fst ` set (closedset s) \<inter> fst ` set (openset s') = {}
       \<and> (\<forall>c. min_key (openset s') = Inr c \<longrightarrow> c \<notin> fst ` set (closedset s))
       \<and> (\<forall>c cur ex ms s3.
             min_key (openset s') = Inr c \<longrightarrow> map_of (openset s') c = Some cur \<longrightarrow>
             expand g c cur ms
               (s'\<lparr>expansion := ex, openset := AList.delete c (openset s'),
                    closedset := AList.update c cur (closedset s')\<rparr>) = Inr s3 \<longrightarrow>
             fst ` set (openset s3) \<inter> fst ` set (closedset s3) = {}
             \<and> fst ` set (closedset s) \<subseteq> fst ` set (closedset s3))"
proof -
  have inv: "search_inv g nstart s" by (rule search_inv_reach[OF r search_inv_start])
  have inv': "search_inv g nstart s'" by (rule search_inv_reach[OF r' inv])
  have d: "fst ` set (openset s) \<inter> fst ` set (closedset s) = {}"
    using inv by (simp add: search_inv_def)
  have d': "fst ` set (openset s') \<inter> fst ` set (closedset s') = {}"
    using inv' by (simp add: search_inv_def)
  have mono: "fst ` set (closedset s) \<subseteq> fst ` set (closedset s')"
    by (rule closed_keys_mono[OF r' inv])
  have x: "fst ` set (closedset s) \<inter> fst ` set (openset s') = {}"
    using d' mono by blast
  have n: "c \<notin> fst ` set (closedset s)" if "min_key (openset s') = Inr c" for c
    using min_key_Inr[OF that] x by blast
  have p: "fst ` set (openset s3) \<inter> fst ` set (closedset s3) = {}
             \<and> fst ` set (closedset s) \<subseteq> fst ` set (closedset s3)"
    if mo: "map_of (openset s') c = Some cur"
      and e: "expand g c cur ms
               (s'\<lparr>expansion := ex, openset := AList.delete c (openset s'),
                    closedset := AList.update c cur (closedset s')\<rparr>) = Inr s3"
    for c cur ex ms s3
  proof -
    from mo have m: "(c, cur) \<in> set (openset s')" by (rule map_of_SomeD)
    note q = search_inv_pop[OF inv' m, of ex]
    have "search_inv g nstart s3" by (rule search_inv_expand[OF q(1) q(3) e])
    then have "fst ` set (openset s3) \<inter> fst ` set (closedset s3) = {}"
      by (simp add: search_inv_def)
    moreover have "closedset s3 = closedset s' @ [(c, cur)]"
      using expand_frame[OF e] q(2) by simp
    then have "fst ` set (closedset s') \<subseteq> fst ` set (closedset s3)" by auto
    with mono have "fst ` set (closedset s) \<subseteq> fst ` set (closedset s3)" by (rule subset_trans)
    ultimately show ?thesis ..
  qed
  show ?thesis
  proof (intro conjI allI impI)
    show "fst ` set (openset s) \<inter> fst ` set (closedset s) = {}" by (rule d)
    show "fst ` set (closedset s) \<subseteq> fst ` set (closedset s')" by (rule mono)
    show "fst ` set (closedset s) \<inter> fst ` set (openset s') = {}" by (rule x)
  next
    fix c assume "min_key (openset s') = Inr c"
    then show "c \<notin> fst ` set (closedset s)" by (rule n)
  next
    fix c cur ex ms s3
    assume "map_of (openset s') c = Some cur"
      and "expand g c cur ms
               (s'\<lparr>expansion := ex, openset := AList.delete c (openset s'),
                    closedset := AList.update c cur (closedset s')\<rparr>) = Inr s3"
    from p[OF this] show "fst ` set (openset s3) \<inter> fst ` set (closedset s3) = {}"
      and "fst ` set (closedset s) \<subseteq> fst ` set (closedset s3)" by simp_all
  qed
qed

theorem open_and_closed_stay_disjoint_witness:
  "reach grid_B \<lparr>node_x = 1, node_y = 1, node_cost = 0, node_pind = - 1\<rparr>
     (start_state grid_B \<lparr>node_x = 1, node_y = 0, node_cost = 0, node_pind = - 1\<rparr>) pass1_B
   \<and> fst ` set (openset pass1_B) \<inter> fst ` set (closedset pass1_B) = {}
   \<and> min_key (openset pass1_B) = Inr 3
   \<and> 3 \<notin> fst ` set (closedset pass1_B)"
proof -
  have r: "reach grid_B \<lparr>node_x = 1, node_y = 1, node_cost = 0, node_pind = - 1\<rparr>
     (start_state grid_B \<lparr>node_x = 1, node_y = 0, node_cost = 0, node_pind = - 1\<rparr>) pass1_B"
    by (rule reach_next[OF reach_start iteration_B])
  have r': "reach grid_B \<lparr>node_x = 1, node_y = 1, node_cost = 0, node_pind = - 1\<rparr>
     pass1_B pass1_B"
    by (rule reach_start)
  have m: "min_key (openset pass1_B) = Inr 3" by (simp add: pass1_B_def min_key_def)
  note t = open_and_closed_stay_disjoint [OF r r']
  have d: "fst ` set (openset pass1_B) \<inter> fst ` set (closedset pass1_B) = {}"
    by (rule conjunct1[OF t])
  have "\<forall>c. min_key (openset pass1_B) = Inr c \<longrightarrow> c \<notin> fst ` set (closedset pass1_B)"
    by (rule conjunct1[OF conjunct2[OF conjunct2[OF conjunct2[OF t]]]])
  with m have "3 \<notin> fst ` set (closedset pass1_B)" by blast
  with r d m show ?thesis by (intro conjI)
qed

text \<open>
  C3, as the spec states it: an exhausted frontier is reported as a result value.
  On \<open>grid_C\<close> the start (0, 0) and the goal (2, 0) are free cells separated by
  the occupied cell (1, 0).  After the start is expanded the frontier is empty
  and \<open>min\<close> raises \<open>ValueError\<close>: the call ends with an exception.
\<close>

theorem empty_frontier_raises:
  "GraphSearch_init [1, 0, 3] [0, 1, 1] 1 (1 / 2) = Inr grid_C
   \<and> verify_node grid_C \<lparr>node_x = 0, node_y = 0, node_cost = 0, node_pind = - 1\<rparr> = Inr True
   \<and> verify_node grid_C \<lparr>node_x = 2, node_y = 0, node_cost = 0, node_pind = - 1\<rparr> = Inr True
   \<and> planning grid_C 0 0 2 0 = Some (Inl ValueError)"
proof -
  have "verify_node grid_C \<lparr>node_x = 0, node_y = 0, node_cost = 0, node_pind = - 1\<rparr> = Inr True"
       "verify_node grid_C \<lparr>node_x = 2, node_y = 0, node_cost = 0, node_pind = - 1\<rparr> = Inr True"
    by (simp_all add: grid_C_def verify_node_def calc_position_def py_get_def)
  moreover have "planning grid_C 0 0 2 0 = Some (Inl ValueError)"
    by (simp add: eval_plan grid_C_def)
  ultimately show ?thesis using init_grid_C by (intro conjI)
qed

text \<open>
  C3, amended: every call of \<open>planning\<close> terminates (the loops cannot run for ever:
  the result is \<open>Some r\<close>), and when the frontier is empty at the head of a pass,
  before the goal cell was selected, the call ends by raising \<open>ValueError\<close> (from
  \<open>min\<close> over the empty dictionary): an exception, and no path is returned.
\<close>

theorem planning_terminates_raising_on_empty_frontier:
  "\<exists>r. planning g sx sy gx gy = Some r
     \<and> (\<forall>six siy gix giy s.
          calc_xyindex g sx (minx g) = Inr six \<longrightarrow> calc_xyindex g sy (miny g) = Inr siy \<longrightarrow>
          calc_xyindex g gx (minx g) = Inr gix \<longrightarrow> calc_xyindex g gy (miny g) = Inr giy \<longrightarrow>
          reach g \<lparr>node_x = gix, node_y = giy, node_cost = 0, node_pind = - 1\<rparr>
            (start_state g \<lparr>node_x = six, node_y = siy, node_cost = 0, node_pind = - 1\<rparr>) s \<longrightarrow>
          openset s = [] \<longrightarrow> r = Inl ValueError)"
proof (cases "reso g = 0")
  case True
  then show ?thesis by (auto simp: planning_zero_reso dest: calc_xyindex_reso)
next
  case False
  then obtain six siy gix giy where i: "calc_xyindex g sx (minx g) = Inr six"
    "calc_xyindex g sy (miny g) = Inr siy" "calc_xyindex g gx (minx g) = Inr gix"
    "calc_xyindex g gy (miny g) = Inr giy"
    using calc_xyindex_Inr by meson
  let ?a = "\<lparr>node_x = six, node_y = siy, node_cost = 0, node_pind = - 1\<rparr>"
  let ?b = "\<lparr>node_x = gix, node_y = giy, node_cost = 0, node_pind = - 1\<rparr>"
  have p: "planning g sx sy gx gy = run_search g ?a ?b" by (rule planning_run[OF i])
  obtain r where r: "run_search g ?a ?b = Some r"
    using run_search_total[of ?a g ?b] by auto
  have "r = Inl ValueError" if "reach g ?b (start_state g ?a) s" "openset s = []" for s
    using run_search_empty[OF that] r by simp
  with p r i show ?thesis by auto
qed

theorem planning_terminates_raising_on_empty_frontier_witness:
  "reach grid_C \<lparr>node_x = 2, node_y = 0, node_cost = 0, node_pind = - 1\<rparr>
     (start_state grid_C \<lparr>node_x = 0, node_y = 0, node_cost = 0, node_pind = - 1\<rparr>) pass1_C
   \<and> openset pass1_C = []
   \<and> planning grid_C 0 0 2 0 = Some (Inl ValueError)"
proof -
  have r: "reach grid_C \<lparr>node_x = 2, node_y = 0, node_cost = 0, node_pind = - 1\<rparr>
     (start_state grid_C \<lparr>node_x = 0, node_y = 0, node_cost = 0, node_pind = - 1\<rparr>) pass1_C"
    by (rule reach_next[OF reach_start iteration_C])
  have e: "openset pass1_C = []" by (simp add: pass1_C_def)
  from planning_terminates_raising_on_empty_frontier [of grid_C 0 0 2 0]
  obtain res where p: "planning grid_C 0 0 2 0 = Some res"
    and a: "\<And>six siy gix giy s.
          calc_xyindex grid_C 0 (minx grid_C) = Inr six \<Longrightarrow>
          calc_xyindex grid_C 0 (miny grid_C) = Inr siy \<Longrightarrow>
          calc_xyindex grid_C 2 (minx grid_C) = Inr gix \<Longrightarrow>
          calc_xyindex grid_C 0 (miny grid_C) = Inr giy \<Longrightarrow>
          reach grid_C \<lparr>node_x = gix, node_y = giy, node_cost = 0, node_pind = - 1\<rparr>
            (start_state grid_C \<lparr>node_x = six, node_y = siy, node_cost = 0, node_pind = - 1\<rparr>) s \<Longrightarrow>
          openset s = [] \<Longrightarrow> res = Inl ValueError"
    by blast
  from a[OF xyindex_C(1) xyindex_C(3) xyindex_C(2) xyindex_C(3) r e] p r e
  show ?thesis by simp
qed

text \<open>
  C4, as the spec states it: a start or goal on an occupied or out-of-bounds cell
  makes the call fail before the loop.  On \<open>grid_B\<close> the start (0, 0) is the
  occupied cell, and \<open>planning\<close> returns a path from it to the goal (1, 0).
\<close>

theorem occupied_start_is_not_rejected:
  "GraphSearch_init [0, 2] [0, 2] 1 (1 / 2) = Inr grid_B
   \<and> verify_node grid_B \<lparr>node_x = 0, node_y = 0, node_cost = 0, node_pind = - 1\<rparr> = Inr False
   \<and> planning grid_B 0 0 1 0 = Some (Inr ([1, 0], [0, 0], [(0, 0), (1, 0)]))"
proof -
  have "verify_node grid_B \<lparr>node_x = 0, node_y = 0, node_cost = 0, node_pind = - 1\<rparr> = Inr False"
    by (simp add: grid_B_def verify_node_def calc_position_def py_get_def)
  moreover have "planning grid_B 0 0 1 0 = Some (Inr ([1, 0], [0, 0], [(0, 0), (1, 0)]))"
    by (simp add: eval_plan grid_B_def)
  ultimately show ?thesis using init_grid_B by (intro conjI)
qed

text \<open>
  C4, amended: \<open>planning\<close> checks neither the start nor the goal cell before the
  loop.  When start and goal map to the same cell the call returns the path of
  that one waypoint, whatever the cell.  When the goal cell does not pass
  \<open>verify_node\<close> (out of bounds, occupied, or outside the map) and is not the start
  cell, the call returns no path: it ends inside the loop with \<open>ValueError\<close> (the
  frontier is exhausted) or \<open>IndexError\<close> (the occupancy lookup).  A start cell
  that does not pass \<open>verify_node\<close> is not rejected.
\<close>

theorem planning_does_not_validate_the_query:
  assumes "calc_xyindex g sx (minx g) = Inr six" and "calc_xyindex g sy (miny g) = Inr siy"
    and "calc_xyindex g gx (minx g) = Inr gix" and "calc_xyindex g gy (miny g) = Inr giy"
  shows "(gix = six \<and> giy = siy \<longrightarrow>
            planning g sx sy gx gy =
              Some (Inr ([calc_position g gix (minx g)], [calc_position g giy (miny g)],
                         [(calc_position g gix (minx g), calc_position g giy (miny g))])))
       \<and> (\<not> (gix = six \<and> giy = siy)
            \<and> verify_node g \<lparr>node_x = gix, node_y = giy, node_cost = 0, node_pind = - 1\<rparr>
                \<noteq> Inr True \<longrightarrow>
            (\<exists>e. planning g sx sy gx gy = Some (Inl e) \<and> (e = ValueError \<or> e = IndexError)))"
proof -
  let ?a = "\<lparr>node_x = six, node_y = siy, node_cost = 0, node_pind = - 1\<rparr>"
  let ?b = "\<lparr>node_x = gix, node_y = giy, node_cost = 0, node_pind = - 1\<rparr>"
  have p: "planning g sx sy gx gy = run_search g ?a ?b" by (rule planning_run[OF assms])
  have "planning g sx sy gx gy =
              Some (Inr ([calc_position g gix (minx g)], [calc_position g giy (miny g)],
                         [(calc_position g gix (minx g), calc_position g giy (miny g))]))"
    if "gix = six \<and> giy = siy"
    using run_search_same_cell[of ?a ?b g] that by (simp add: p)
  moreover have "\<exists>e. planning g sx sy gx gy = Some (Inl e) \<and> (e = ValueError \<or> e = IndexError)"
    if "\<not> (gix = six \<and> giy = siy)" "verify_node g ?b \<noteq> Inr True"
    using run_search_invalid_goal[of ?a ?b g] that by (simp add: p)
  ultimately show ?thesis by blast
qed

theorem planning_does_not_validate_the_query_witness:
  "verify_node grid_B \<lparr>node_x = 0, node_y = 0, node_cost = 0, node_pind = - 1\<rparr> \<noteq> Inr True
   \<and> planning grid_B 0 0 0 0 =
       Some (Inr ([calc_position grid_B 0 (minx grid_B)], [calc_position grid_B 0 (miny grid_B)],
              [(calc_position grid_B 0 (minx grid_B), calc_position grid_B 0 (miny grid_B))]))
   \<and> (\<exists>e. planning grid_B 1 0 0 0 = Some (Inl e) \<and> (e = ValueError \<or> e = IndexError))"
proof -
  have v: "verify_node grid_B \<lparr>node_x = 0, node_y = 0, node_cost = 0, node_pind = - 1\<rparr>
             \<noteq> Inr True"
    by (simp add: verify_B_00)
  from planning_does_not_validate_the_query
    [OF xyindex_B(1) xyindex_B(3) xyindex_B(1) xyindex_B(3)]
  have 1: "planning grid_B 0 0 0 0 =
       Some (Inr ([calc_position grid_B 0 (minx grid_B)], [calc_position grid_B 0 (miny grid_B)],
              [(calc_position grid_B 0 (minx grid_B), calc_position grid_B 0 (miny grid_B))]))"
    by simp
  from planning_does_not_validate_the_query
    [OF xyindex_B(2) xyindex_B(3) xyindex_B(1) xyindex_B(3)] v
  have 2: "\<exists>e. planning grid_B 1 0 0 0 = Some (Inl e) \<and> (e = ValueError \<or> e = IndexError)"
    by simp
  from v 1 2 show ?thesis by (intro conjI)
qed

text \<open>
  C9: when the start cell passes \<open>verify_node\<close> and the call returns a path, the
  waypoints are the positions of a list of cells each of which passes
  \<open>verify_node\<close>: its position is inside the bounds and its entry of the
  obstacle map exists and is \<open>False\<close>.  (The goal cell of such a call passes
  \<open>verify_node\<close> as well, since it was taken from the frontier.)
\<close>

theorem waypoints_are_free_cells:
  assumes "calc_xyindex g sx (minx g) = Inr six" and "calc_xyindex g sy (miny g) = Inr siy"
    and "calc_xyindex g gx (minx g) = Inr gix" and "calc_xyindex g gy (miny g) = Inr giy"
    and sv: "verify_node g \<lparr>node_x = six, node_y = siy, node_cost = 0, node_pind = - 1\<rparr>
               = Inr True"
    and pl: "planning g sx sy gx gy = Some (Inr (rx, ry, ex))"
  shows "\<exists>ns. rx = map (\<lambda>n. calc_position g (node_x n) (minx g)) ns
            \<and> ry = map (\<lambda>n. calc_position g (node_y n) (miny g)) ns
            \<and> (\<forall>n \<in> set ns.
                  verify_node g n = Inr True
                  \<and> of_int (minx g) \<le> calc_position g (node_x n) (minx g)
                  \<and> calc_position g (node_x n) (minx g) < of_int (maxx g)
                  \<and> of_int (miny g) \<le> calc_position g (node_y n) (miny g)
                  \<and> calc_position g (node_y n) (miny g) < of_int (maxy g)
                  \<and> (\<exists>col. py_get (obmap g) (node_x n) = Inr col
                         \<and> py_get col (node_y n) = Inr False))"
proof -
  let ?a = "\<lparr>node_x = six, node_y = siy, node_cost = 0, node_pind = - 1\<rparr>"
  let ?b = "\<lparr>node_x = gix, node_y = giy, node_cost = 0, node_pind = - 1\<rparr>"
  have p: "run_search g ?a ?b = Some (Inr (rx, ry, ex))"
    using pl by (simp add: planning_run[OF assms(1-4)])
  have st: "node_pind ?a = - 1" by simp
  from run_search_result[OF st, of g ?b] p obtain s c cur ns where
    inv: "search_inv g ?a s" and m: "(c, cur) \<in> set (openset s)"
    and xy: "node_x cur = node_x ?b" "node_y cur = node_y ?b"
    and sub: "set ns \<subseteq> snd ` set (closedset s)"
    and rx: "rx = calc_position g (node_x ?b) (minx g)
                    # map (\<lambda>n. calc_position g (node_x n) (minx g)) ns"
    and ry: "ry = calc_position g (node_y ?b) (miny g)
                    # map (\<lambda>n. calc_position g (node_y n) (miny g)) ns"
    by auto
  from inv m have "entry_ok g ?a (fst ` set (closedset s)) c cur"
    by (force simp: search_inv_def)
  then have "verify_node g cur = Inr True" using sv by (auto simp: entry_ok_def)
  with verify_node_coords[OF xy, of g] have gv: "verify_node g ?b = Inr True" by simp
  have nv: "verify_node g n = Inr True" if "n \<in> set ns" for n
    using closed_entry[OF inv, of n] that sub sv by auto
  have "rx = map (\<lambda>n. calc_position g (node_x n) (minx g)) (?b # ns)"
    "ry = map (\<lambda>n. calc_position g (node_y n) (miny g)) (?b # ns)"
    using rx ry by simp_all
  moreover have "\<forall>n \<in> set (?b # ns). verify_node g n = Inr True"
    using gv nv by simp
  ultimately show ?thesis using verify_node_True by blast
qed

theorem waypoints_are_free_cells_witness:
  "verify_node grid_B \<lparr>node_x = 1, node_y = 0, node_cost = 0, node_pind = - 1\<rparr> = Inr True
   \<and> planning grid_B 1 0 1 1 = Some (Inr ([1, 1], [1, 0], [(1, 0), (1, 1)]))
   \<and> (\<exists>ns. [1, 1] = map (\<lambda>n. calc_position grid_B (node_x n) (minx grid_B)) ns
          \<and> [1, 0] = map (\<lambda>n. calc_position grid_B (node_y n) (miny grid_B)) ns
          \<and> (\<forall>n \<in> set ns.
                verify_node grid_B n = Inr True
                \<and> of_int (minx grid_B) \<le> calc_position grid_B (node_x n) (minx grid_B)
                \<and> calc_position grid_B (node_x n) (minx grid_B) < of_int (maxx grid_B)
                \<and> of_int (miny grid_B) \<le> calc_position grid_B (node_y n) (miny grid_B)
                \<and> calc_position grid_B (node_y n) (miny grid_B) < of_int (maxy grid_B)
                \<and> (\<exists>col. py_get (obmap grid_B) (node_x n) = Inr col
                       \<and> py_get col (node_y n) = Inr False)))"
  using waypoints_are_free_cells
    [OF xyindex_B(2) xyindex_B(3) xyindex_B(2) xyindex_B(4) verify_B_10 plan_B_10_11]
    verify_B_10 plan_B_10_11
  by (intro conjI)

text \<open>
  C2, as the spec states it: the returned waypoints run from the start to the goal.
  On \<open>grid_B\<close>, from the start (1, 0) to the goal (1, 1), the returned lists are
  \<open>rx = [1, 1]\<close>, \<open>ry = [1, 0]\<close>: the first waypoint (1, 1) is the goal and not
  the start (its y is 1, the start's is 0), the last waypoint (1, 0) is the start
  and not the goal.  \<open>calc_final_path\<close> collects from the goal backwards and
  nothing reverses the lists.
\<close>

theorem path_starts_at_goal:
  "GraphSearch_init [0, 2] [0, 2] 1 (1 / 2) = Inr grid_B
   \<and> calc_xyindex grid_B 0 (miny grid_B) = Inr 0
   \<and> calc_xyindex grid_B 1 (miny grid_B) = Inr 1
   \<and> planning grid_B 1 0 1 1 = Some (Inr ([1, 1], [1, 0], [(1, 0), (1, 1)]))
   \<and> hd [1, 0 :: real] \<noteq> calc_position grid_B 0 (miny grid_B)
   \<and> last [1, 0 :: real] \<noteq> calc_position grid_B 1 (miny grid_B)"
proof -
  have "hd [1, 0 :: real] \<noteq> calc_position grid_B 0 (miny grid_B)"
       "last [1, 0 :: real] \<noteq> calc_position grid_B 1 (miny grid_B)"
    by (simp_all add: calc_position_def grid_B_def)
  with init_grid_B xyindex_B(3) xyindex_B(4) plan_B_10_11 show ?thesis by (intro conjI)
qed

text \<open>
  C2, amended: the waypoints of a returned path run from the goal to the start.
  For every call that returns a path, both lists are non-empty and of equal
  length, and the first waypoint is the position of the goal cell.  When no cell
  has the linear index \<open>-1\<close> (neither the start cell nor a cell that passes
  \<open>verify_node\<close>), the last waypoint is the position of the start cell.
\<close>

theorem path_runs_from_goal_to_start:
  assumes "calc_xyindex g sx (minx g) = Inr six" and "calc_xyindex g sy (miny g) = Inr siy"
    and "calc_xyindex g gx (minx g) = Inr gix" and "calc_xyindex g gy (miny g) = Inr giy"
    and pl: "planning g sx sy gx gy = Some (Inr (rx, ry, ex))"
  shows "rx \<noteq> [] \<and> ry \<noteq> [] \<and> length rx = length ry
       \<and> hd rx = calc_position g gix (minx g) \<and> hd ry = calc_position g giy (miny g)
       \<and> (calc_index g \<lparr>node_x = six, node_y = siy, node_cost = 0, node_pind = - 1\<rparr> \<noteq> - 1
            \<and> (\<forall>n. verify_node g n = Inr True \<longrightarrow> calc_index g n \<noteq> - 1)
          \<longrightarrow> last rx = calc_position g six (minx g)
              \<and> last ry = calc_position g siy (miny g))"
proof -
  let ?a = "\<lparr>node_x = six, node_y = siy, node_cost = 0, node_pind = - 1\<rparr>"
  let ?b = "\<lparr>node_x = gix, node_y = giy, node_cost = 0, node_pind = - 1\<rparr>"
  have p: "run_search g ?a ?b = Some (Inr (rx, ry, ex))"
    using pl by (simp add: planning_run[OF assms(1-4)])
  have st: "node_pind ?a = - 1" by simp
  from run_search_result[OF st, of g ?b] p obtain s c cur ns where
    inv: "search_inv g ?a s" and m: "(c, cur) \<in> set (openset s)"
    and xy: "node_x cur = node_x ?b" "node_y cur = node_y ?b"
    and sub: "set ns \<subseteq> snd ` set (closedset s)"
    and a: "node_pind cur = - 1 \<longrightarrow> ns = []"
    and b: "node_pind cur \<noteq> - 1 \<longrightarrow> ns \<noteq> [] \<and> node_pind (last ns) = - 1"
    and rx: "rx = calc_position g (node_x ?b) (minx g)
                    # map (\<lambda>n. calc_position g (node_x n) (minx g)) ns"
    and ry: "ry = calc_position g (node_y ?b) (miny g)
                    # map (\<lambda>n. calc_position g (node_y n) (miny g)) ns"
    by auto
  have first_wp: "rx \<noteq> [] \<and> ry \<noteq> [] \<and> length rx = length ry
       \<and> hd rx = calc_position g gix (minx g) \<and> hd ry = calc_position g giy (miny g)"
    using rx ry by simp
  have last_wp: "last rx = calc_position g six (minx g) \<and> last ry = calc_position g siy (miny g)"
    if s1: "calc_index g ?a \<noteq> - 1"
      and s2: "\<forall>n. verify_node g n = Inr True \<longrightarrow> calc_index g n \<noteq> - 1"
  proof -
    have nk: "- 1 \<notin> fst ` set (closedset s)"
    proof
      assume "- 1 \<in> fst ` set (closedset s)"
      from closed_key[OF inv this] obtain n where "- 1 = calc_index g n"
        "n = ?a \<or> verify_node g n = Inr True" by blast
      with s1 s2 show False by metis
    qed
    show ?thesis
    proof (cases "ns = []")
      case True
      with b have "node_pind cur = - 1" by auto
      moreover from inv m have "entry_ok g ?a (fst ` set (closedset s)) c cur"
        by (force simp: search_inv_def)
      ultimately have "cur = ?a" using nk by (auto simp: entry_ok_def)
      with xy have "gix = six" "giy = siy" by auto
      with True rx ry show ?thesis by simp
    next
      case False
      with a b have l: "node_pind (last ns) = - 1" by auto
      from False sub have "last ns \<in> snd ` set (closedset s)" by (meson last_in_set subsetD)
      from closed_entry[OF inv this] l nk have "last ns = ?a" by auto
      with False rx ry show ?thesis by (simp add: last_map)
    qed
  qed
  from first_wp last_wp show ?thesis by blast
qed

theorem path_runs_from_goal_to_start_witness:
  "planning grid_B 1 0 1 1 = Some (Inr ([1, 1], [1, 0], [(1, 0), (1, 1)]))
   \<and> calc_index grid_B \<lparr>node_x = 1, node_y = 0, node_cost = 0, node_pind = - 1\<rparr> \<noteq> - 1
   \<and> hd [1, 1] = calc_position grid_B 1 (minx grid_B)
   \<and> hd [1, 0] = calc_position grid_B 1 (miny grid_B)
   \<and> last [1, 1] = calc_position grid_B 1 (minx grid_B)
   \<and> last [1, 0] = calc_position grid_B 0 (miny grid_B)"
proof -
  have s1: "calc_index grid_B \<lparr>node_x = 1, node_y = 0, node_cost = 0, node_pind = - 1\<rparr> \<noteq> - 1"
    by (simp add: calc_index_def grid_B_def)
  note t = path_runs_from_goal_to_start
    [OF xyindex_B(2) xyindex_B(3) xyindex_B(2) xyindex_B(4) plan_B_10_11]
  from t have h: "hd [1, 1] = calc_position grid_B 1 (minx grid_B)"
    "hd [1, 0] = calc_position grid_B 1 (miny grid_B)" by blast+
  from t s1 no_sentinel_B have l: "last [1, 1] = calc_position grid_B 1 (minx grid_B)"
    "last [1, 0] = calc_position grid_B 0 (miny grid_B)" by blast+
  from plan_B_10_11 s1 h l show ?thesis by (intro conjI)
qed

text \<open>
  C7: \<open>planning\<close> reads its arguments and the fields of the grid and nothing
  else, so a call is determined by its inputs up to the order in which the
  frontier is served; that order is fixed as follows.  Let \<open>s\<close> be the state at the
  head of any pass of a call, with a non-empty frontier.  The pass selects the
  entry at the first position of \<open>openset\<close> whose cost is minimal: every entry
  costs at least as much, every entry before it costs strictly more, and no other
  entry has its key, so it is this entry the pass reads, logs in \<open>expansion\<close>,
  tests against the goal and moves to the end of \<open>closedset\<close>.  Positions in
  \<open>openset\<close> are in the order of insertion: one motion either leaves the list of
  keys as it is (an entry made cheaper keeps its place) or appends the index of
  the neighbour, a pass removes the selected key and appends the new ones, and at
  every later pass a key that was in the frontier at \<open>s\<close> stands before every key
  that was not.  So among the entries of minimal cost the one whose key was
  inserted earliest is expanded.  The log at \<open>s\<close> lists the closed nodes in the
  order they were selected, and the log a call returns is that list at the last
  pass followed by the goal.
\<close>

theorem planning_expands_first_inserted_minimum:
  fixes six siy gix giy :: int
  defines "nstart \<equiv> \<lparr>node_x = six, node_y = siy, node_cost = 0, node_pind = - 1\<rparr>"
    and "ngoal \<equiv> \<lparr>node_x = gix, node_y = giy, node_cost = 0, node_pind = - 1\<rparr>"
  assumes ix: "calc_xyindex g sx (minx g) = Inr six" "calc_xyindex g sy (miny g) = Inr siy"
      "calc_xyindex g gx (minx g) = Inr gix" "calc_xyindex g gy (miny g) = Inr giy"
    and r: "reach g ngoal (start_state g nstart) s" and ne: "openset s \<noteq> []"
  shows "(\<exists>i c cur.
      i < length (openset s) \<and> openset s ! i = (c, cur)
    \<and> (\<forall>j<length (openset s). node_cost cur \<le> node_cost (snd (openset s ! j)))
    \<and> (\<forall>j<i. node_cost cur < node_cost (snd (openset s ! j)))
    \<and> (\<forall>j<length (openset s). j \<noteq> i \<longrightarrow> fst (openset s ! j) \<noteq> c)
    \<and> (\<forall>e. iteration g ngoal s = Raise e \<longrightarrow> e = IndexError)
    \<and> (\<forall>n s'. iteration g ngoal s = Found n s' \<longrightarrow>
           node_x cur = node_x ngoal \<and> node_y cur = node_y ngoal
         \<and> n = ngoal\<lparr>node_pind := node_pind cur, node_cost := node_cost cur\<rparr>
         \<and> s' = s\<lparr>expansion := expansion s @
                      [(calc_position g (node_x cur) (minx g),
                        calc_position g (node_y cur) (miny g))]\<rparr>)
    \<and> (\<forall>s'. iteration g ngoal s = Next s' \<longrightarrow>
           closedset s' = closedset s @ [(c, cur)]
         \<and> expansion s' = expansion s @
                      [(calc_position g (node_x cur) (minx g),
                        calc_position g (node_y cur) (miny g))]
         \<and> (\<exists>fresh. map fst (openset s') = removeAll c (map fst (openset s)) @ fresh
                \<and> set fresh \<inter> fst ` set (openset s) = {}))
    \<and> (\<forall>m t t'. expand_one g c cur m t = Inr t' \<longrightarrow>
           map fst (openset t') = map fst (openset t)
         \<or> (calc_index g \<lparr>node_x = node_x cur + fst m, node_y = node_y cur + fst (snd m),
                            node_cost = node_cost cur + snd (snd m), node_pind = c\<rparr>
               \<notin> fst ` set (openset t)
             \<and> map fst (openset t') = map fst (openset t) @
                  [calc_index g \<lparr>node_x = node_x cur + fst m, node_y = node_y cur + fst (snd m),
                                 node_cost = node_cost cur + snd (snd m), node_pind = c\<rparr>]))
    \<and> (\<forall>s' k1 k2. reach g ngoal s s' \<longrightarrow>
           k1 \<in> fst ` set (openset s) \<longrightarrow> k2 \<notin> fst ` set (openset s) \<longrightarrow>
           k1 \<in> fst ` set (openset s') \<longrightarrow> k2 \<in> fst ` set (openset s') \<longrightarrow>
           (\<exists>xs ys zs. map fst (openset s') = xs @ k1 # ys @ k2 # zs))
    \<and> expansion s = map (\<lambda>e. (calc_position g (node_x (snd e)) (minx g),
                                calc_position g (node_y (snd e)) (miny g))) (closedset s))
    \<and> ((\<exists>e. planning g sx sy gx gy = Some (Inl e))
       \<or> (\<exists>rx ry sf. reach g ngoal (start_state g nstart) sf
             \<and> planning g sx sy gx gy =
                 Some (Inr (rx, ry,
                   map (\<lambda>e. (calc_position g (node_x (snd e)) (minx g),
                              calc_position g (node_y (snd e)) (miny g))) (closedset sf)
                   @ [(calc_position g gix (minx g), calc_position g giy (miny g))]))))"
proof -
  have inv: "search_inv g nstart s" by (rule search_inv_reach[OF r search_inv_start])
  from selected_entry[OF inv ne] obtain i c cur where i: "i < length (openset s)"
    and e: "openset s ! i = (c, cur)"
    and mk: "min_key (openset s) = Inr c" and mo: "map_of (openset s) c = Some cur"
    and le: "\<forall>j<length (openset s). node_cost cur \<le> node_cost (snd (openset s ! j))"
    and lt: "\<forall>j<i. node_cost cur < node_cost (snd (openset s ! j))"
    and un: "\<forall>j<length (openset s). j \<noteq> i \<longrightarrow> fst (openset s ! j) \<noteq> c"
    by blast
  have ra: "\<forall>e. iteration g ngoal s = Raise e \<longrightarrow> e = IndexError"
    using iteration_Raise[of g ngoal s] ne by blast
  have fo: "\<forall>n s'. iteration g ngoal s = Found n s' \<longrightarrow>
           node_x cur = node_x ngoal \<and> node_y cur = node_y ngoal
         \<and> n = ngoal\<lparr>node_pind := node_pind cur, node_cost := node_cost cur\<rparr>
         \<and> s' = s\<lparr>expansion := expansion s @
                      [(calc_position g (node_x cur) (minx g),
                        calc_position g (node_y cur) (miny g))]\<rparr>"
  proof (intro allI impI)
    fix n s' assume "iteration g ngoal s = Found n s'"
    then obtain c' cur' where "min_key (openset s) = Inr c'" "map_of (openset s) c' = Some cur'"
      "node_x cur' = node_x ngoal" "node_y cur' = node_y ngoal"
      "n = ngoal\<lparr>node_pind := node_pind cur', node_cost := node_cost cur'\<rparr>"
      "s' = s\<lparr>expansion := expansion s @
              [(calc_position g (node_x cur') (minx g), calc_position g (node_y cur') (miny g))]\<rparr>"
      by (rule iteration_Found)
    with mk mo show "node_x cur = node_x ngoal \<and> node_y cur = node_y ngoal
         \<and> n = ngoal\<lparr>node_pind := node_pind cur, node_cost := node_cost cur\<rparr>
         \<and> s' = s\<lparr>expansion := expansion s @
                      [(calc_position g (node_x cur) (minx g),
                        calc_position g (node_y cur) (miny g))]\<rparr>" by simp
  qed
  have nx: "\<forall>s'. iteration g ngoal s = Next s' \<longrightarrow>
           closedset s' = closedset s @ [(c, cur)]
         \<and> expansion s' = expansion s @
                      [(calc_position g (node_x cur) (minx g),
                        calc_position g (node_y cur) (miny g))]
         \<and> (\<exists>fresh. map fst (openset s') = removeAll c (map fst (openset s)) @ fresh
                \<and> set fresh \<inter> fst ` set (openset s) = {})"
  proof (intro allI impI)
    fix s' assume "iteration g ngoal s = Next s'"
    from pass_Next[OF inv this] mk mo
    show "closedset s' = closedset s @ [(c, cur)]
         \<and> expansion s' = expansion s @
                      [(calc_position g (node_x cur) (minx g),
                        calc_position g (node_y cur) (miny g))]
         \<and> (\<exists>fresh. map fst (openset s') = removeAll c (map fst (openset s)) @ fresh
                \<and> set fresh \<inter> fst ` set (openset s) = {})" by auto
  qed
  have mo1: "\<forall>m t t'. expand_one g c cur m t = Inr t' \<longrightarrow>
           map fst (openset t') = map fst (openset t)
         \<or> (calc_index g \<lparr>node_x = node_x cur + fst m, node_y = node_y cur + fst (snd m),
                            node_cost = node_cost cur + snd (snd m), node_pind = c\<rparr>
               \<notin> fst ` set (openset t)
             \<and> map fst (openset t') = map fst (openset t) @
                  [calc_index g \<lparr>node_x = node_x cur + fst m, node_y = node_y cur + fst (snd m),
                                 node_cost = node_cost cur + snd (snd m), node_pind = c\<rparr>])"
  proof (intro allI impI)
    fix m t t' assume "expand_one g c cur m t = Inr t'"
    from expand_one_keys[OF this]
    show "map fst (openset t') = map fst (openset t)
         \<or> (calc_index g \<lparr>node_x = node_x cur + fst m, node_y = node_y cur + fst (snd m),
                            node_cost = node_cost cur + snd (snd m), node_pind = c\<rparr>
               \<notin> fst ` set (openset t)
             \<and> map fst (openset t') = map fst (openset t) @
                  [calc_index g \<lparr>node_x = node_x cur + fst m, node_y = node_y cur + fst (snd m),
                                 node_cost = node_cost cur + snd (snd m), node_pind = c\<rparr>])"
      by blast
  qed
  have od: "\<forall>s' k1 k2. reach g ngoal s s' \<longrightarrow>
           k1 \<in> fst ` set (openset s) \<longrightarrow> k2 \<notin> fst ` set (openset s) \<longrightarrow>
           k1 \<in> fst ` set (openset s') \<longrightarrow> k2 \<in> fst ` set (openset s') \<longrightarrow>
           (\<exists>xs ys zs. map fst (openset s') = xs @ k1 # ys @ k2 # zs)"
  proof (intro allI impI)
    fix s' k1 k2
    assume r': "reach g ngoal s s'" and a1: "k1 \<in> fst ` set (openset s)"
      and a2: "k2 \<notin> fst ` set (openset s)" and b1: "k1 \<in> fst ` set (openset s')"
      and b2: "k2 \<in> fst ` set (openset s')"
    from frontier_order[OF r' inv] obtain kept fresh where
      k: "map fst (openset s') = kept @ fresh" and ks: "set kept \<subseteq> fst ` set (openset s)"
      and fs: "set fresh \<inter> fst ` set (openset s) = {}" by blast
    from k have "set (map fst (openset s')) = set kept \<union> set fresh" by simp
    then have u: "fst ` set (openset s') = set kept \<union> set fresh" by simp
    from b1 a1 fs u have "k1 \<in> set kept" by blast
    then obtain xs ys where kx: "kept = xs @ k1 # ys" by (meson split_list)
    from b2 a2 ks u have "k2 \<in> set fresh" by blast
    then obtain us zs where fx: "fresh = us @ k2 # zs" by (meson split_list)
    from k kx fx have "map fst (openset s') = xs @ k1 # (ys @ us) @ k2 # zs" by simp
    then show "\<exists>xs ys zs. map fst (openset s') = xs @ k1 # ys @ k2 # zs" by blast
  qed
  have lg: "expansion s = map (\<lambda>e. (calc_position g (node_x (snd e)) (minx g),
                                calc_position g (node_y (snd e)) (miny g))) (closedset s)"
    by (rule expansion_log[OF r search_inv_start]) (simp add: start_state_def)
  have pl: "(\<exists>e. planning g sx sy gx gy = Some (Inl e))
       \<or> (\<exists>rx ry sf. reach g ngoal (start_state g nstart) sf
             \<and> planning g sx sy gx gy =
                 Some (Inr (rx, ry,
                   map (\<lambda>e. (calc_position g (node_x (snd e)) (minx g),
                              calc_position g (node_y (snd e)) (miny g))) (closedset sf)
                   @ [(calc_position g gix (minx g), calc_position g giy (miny g))])))"
  proof -
    have p: "planning g sx sy gx gy = run_search g nstart ngoal"
      by (simp add: planning_run[OF ix] nstart_def ngoal_def)
    have st: "node_pind nstart = - 1" by (simp add: nstart_def)
    from run_search_result[OF st, of g ngoal] obtain sf where
      rf: "reach g ngoal (start_state g nstart) sf"
      and cs: "(\<exists>e. iteration g ngoal sf = Raise e
                  \<and> run_search g nstart ngoal = Some (Inl e))
        \<or> (\<exists>c cur ns. (c, cur) \<in> set (openset sf) \<and> min_key (openset sf) = Inr c
              \<and> node_x cur = node_x ngoal \<and> node_y cur = node_y ngoal
              \<and> set ns \<subseteq> snd ` set (closedset sf)
              \<and> (node_pind cur = - 1 \<longrightarrow> ns = [])
              \<and> (node_pind cur \<noteq> - 1 \<longrightarrow> ns \<noteq> [] \<and> node_pind (last ns) = - 1)
              \<and> chain (closedset sf) (node_pind cur) ns
              \<and> run_search g nstart ngoal =
                  Some (Inr (calc_position g (node_x ngoal) (minx g)
                               # map (\<lambda>n. calc_position g (node_x n) (minx g)) ns,
                             calc_position g (node_y ngoal) (miny g)
                               # map (\<lambda>n. calc_position g (node_y n) (miny g)) ns,
                             expansion sf @ [(calc_position g (node_x cur) (minx g),
                                              calc_position g (node_y cur) (miny g))])))"
      by blast
    have lf: "expansion sf = map (\<lambda>e. (calc_position g (node_x (snd e)) (minx g),
                                calc_position g (node_y (snd e)) (miny g))) (closedset sf)"
      by (rule expansion_log[OF rf search_inv_start]) (simp add: start_state_def)
    from cs show ?thesis
    proof (elim disjE exE conjE)
      fix e assume "run_search g nstart ngoal = Some (Inl e)"
      with p have "\<exists>e. planning g sx sy gx gy = Some (Inl e)" by simp
      then show ?thesis ..
    next
      fix cur :: Node and ns :: "Node list"
      assume x: "node_x cur = node_x ngoal" and y: "node_y cur = node_y ngoal"
        and rs: "run_search g nstart ngoal =
                  Some (Inr (calc_position g (node_x ngoal) (minx g)
                               # map (\<lambda>n. calc_position g (node_x n) (minx g)) ns,
                             calc_position g (node_y ngoal) (miny g)
                               # map (\<lambda>n. calc_position g (node_y n) (miny g)) ns,
                             expansion sf @ [(calc_position g (node_x cur) (minx g),
                                              calc_position g (node_y cur) (miny g))]))"
      have "planning g sx sy gx gy =
                 Some (Inr (calc_position g (node_x ngoal) (minx g)
                               # map (\<lambda>n. calc_position g (node_x n) (minx g)) ns,
                            calc_position g (node_y ngoal) (miny g)
                               # map (\<lambda>n. calc_position g (node_y n) (miny g)) ns,
                   map (\<lambda>e. (calc_position g (node_x (snd e)) (minx g),
                              calc_position g (node_y (snd e)) (miny g))) (closedset sf)
                   @ [(calc_position g gix (minx g), calc_position g giy (miny g))]))"
        using p rs lf x y by (simp add: ngoal_def)
      with rf have "\<exists>rx ry sf. reach g ngoal (start_state g nstart) sf
             \<and> planning g sx sy gx gy =
                 Some (Inr (rx, ry,
                   map (\<lambda>e. (calc_position g (node_x (snd e)) (minx g),
                              calc_position g (node_y (snd e)) (miny g))) (closedset sf)
                   @ [(calc_position g gix (minx g), calc_position g giy (miny g))]))"
        by (intro exI conjI)
      then show ?thesis ..
    qed
  qed
  from i e le lt un ra fo nx mo1 od lg
  have "\<exists>i c cur.
      i < length (openset s) \<and> openset s ! i = (c, cur)
    \<and> (\<forall>j<length (openset s). node_cost cur \<le> node_cost (snd (openset s ! j)))
    \<and> (\<forall>j<i. node_cost cur < node_cost (snd (openset s ! j)))
    \<and> (\<forall>j<length (openset s). j \<noteq> i \<longrightarrow> fst (openset s ! j) \<noteq> c)
    \<and> (\<forall>e. iteration g ngoal s = Raise e \<longrightarrow> e = IndexError)
    \<and> (\<forall>n s'. iteration g ngoal s = Found n s' \<longrightarrow>
           node_x cur = node_x ngoal \<and> node_y cur = node_y ngoal
         \<and> n = ngoal\<lparr>node_pind := node_pind cur, node_cost := node_cost cur\<rparr>
         \<and> s' = s\<lparr>expansion := expansion s @
                      [(calc_position g (node_x cur) (minx g),
                        calc_position g (node_y cur) (miny g))]\<rparr>)
    \<and> (\<forall>s'. iteration g ngoal s = Next s' \<longrightarrow>
           closedset s' = closedset s @ [(c, cur)]
         \<and> expansion s' = expansion s @
                      [(calc_position g (node_x cur) (minx g),
                        calc_position g (node_y cur) (miny g))]
         \<and> (\<exists>fresh. map fst (openset s') = removeAll c (map fst (openset s)) @ fresh
                \<and> set fresh \<inter> fst ` set (openset s) = {}))
    \<and> (\<forall>m t t'. expand_one g c cur m t = Inr t' \<longrightarrow>
           map fst (openset t') = map fst (openset t)
         \<or> (calc_index g \<lparr>node_x = node_x cur + fst m, node_y = node_y cur + fst (snd m),
                            node_cost = node_cost cur + snd (snd m), node_pind = c\<rparr>
               \<notin> fst ` set (openset t)
             \<and> map fst (openset t') = map fst (openset t) @
                  [calc_index g \<lparr>node_x = node_x cur + fst m, node_y = node_y cur + fst (snd m),
                                 node_cost = node_cost cur + snd (snd m), node_pind = c\<rparr>]))
    \<and> (\<forall>s' k1 k2. reach g ngoal s s' \<longrightarrow>
           k1 \<in> fst ` set (openset s) \<longrightarrow> k2 \<notin> fst ` set (openset s) \<longrightarrow>
           k1 \<in> fst ` set (openset s') \<longrightarrow> k2 \<in> fst ` set (openset s') \<longrightarrow>
           (\<exists>xs ys zs. map fst (openset s') = xs @ k1 # ys @ k2 # zs))
    \<and> expansion s = map (\<lambda>e. (calc_position g (node_x (snd e)) (minx g),
                                calc_position g (node_y (snd e)) (miny g))) (closedset s)"
    by (intro exI[of _ i] exI[of _ c] exI[of _ cur] conjI)
  with pl show ?thesis by (intro conjI)
qed

theorem planning_expands_first_inserted_minimum_witness:
  "reach grid_D \<lparr>node_x = 2, node_y = 2, node_cost = 0, node_pind = - 1\<rparr>
     (start_state grid_D \<lparr>node_x = 1, node_y = 1, node_cost = 0, node_pind = - 1\<rparr>) pass1_D
   \<and> openset pass1_D \<noteq> []
   \<and> map fst (openset pass1_D) = [5, 7, 3, 1, 6, 2, 8]
   \<and> map (\<lambda>e. node_cost (snd e)) (openset pass1_D) = [1, 1, 1, 1, sqrt 2, sqrt 2, sqrt 2]
   \<and> iteration grid_D \<lparr>node_x = 2, node_y = 2, node_cost = 0, node_pind = - 1\<rparr> pass1_D
       = Next pass2_D
   \<and> closedset pass2_D = closedset pass1_D
        @ [(5, \<lparr>node_x = 2, node_y = 1, node_cost = 1, node_pind = 4\<rparr>)]
   \<and> expansion pass2_D = expansion pass1_D @ [(2, 1)]
   \<and> planning grid_D 1 1 2 2 =
       Some (Inr ([2, 1], [2, 1],
                  [(1, 1), (2, 1), (1, 2), (0, 1), (1, 0), (0, 2), (2, 0), (2, 2)]))"
proof -
  let ?b = "\<lparr>node_x = 2, node_y = 2, node_cost = 0, node_pind = - 1\<rparr>"
  let ?a = "\<lparr>node_x = 1, node_y = 1, node_cost = 0, node_pind = - 1\<rparr>"
  have r: "reach grid_D ?b (start_state grid_D ?a) pass1_D"
    by (rule reach_next[OF reach_start iteration_D1])
  have ne: "openset pass1_D \<noteq> []" by (simp add: pass1_D_def)
  have ks: "map fst (openset pass1_D) = [5, 7, 3, 1, 6, 2, 8]" by (simp add: pass1_D_def)
  have cs: "map (\<lambda>e. node_cost (snd e)) (openset pass1_D) = [1, 1, 1, 1, sqrt 2, sqrt 2, sqrt 2]"
    by (simp add: pass1_D_def)
  from conjunct1 [OF planning_expands_first_inserted_minimum
                       [OF xyindex_D(1) xyindex_D(3) xyindex_D(2) xyindex_D(4) r ne]]
  show ?thesis
  proof (elim exE conjE)
  fix i c cur
  assume i: "i < length (openset pass1_D)" and e: "openset pass1_D ! i = (c, cur)"
    and lt: "\<forall>j<i. node_cost cur < node_cost (snd (openset pass1_D ! j))"
    and nx: "\<forall>s'. iteration grid_D ?b pass1_D = Next s' \<longrightarrow>
           closedset s' = closedset pass1_D @ [(c, cur)]
         \<and> expansion s' = expansion pass1_D @
                      [(calc_position grid_D (node_x cur) (minx grid_D),
                        calc_position grid_D (node_y cur) (miny grid_D))]
         \<and> (\<exists>fresh. map fst (openset s') = removeAll c (map fst (openset pass1_D)) @ fresh
                \<and> set fresh \<inter> fst ` set (openset pass1_D) = {})"
  have "i = 0"
  proof (rule ccontr)
    assume n: "i \<noteq> 0"
    with lt have "node_cost cur < node_cost (snd (openset pass1_D ! 0))" by simp
    then have c1: "node_cost cur < 1" by (simp add: pass1_D_def)
    from i have "i < 7" by (simp add: pass1_D_def)
    then have "i = 0 \<or> i = 1 \<or> i = 2 \<or> i = 3 \<or> i = 4 \<or> i = 5 \<or> i = 6" by arith
    with n e have "node_cost cur = 1 \<or> node_cost cur = sqrt 2"
      by (auto simp: pass1_D_def)
    with c1 show False by auto
  qed
  with e have ce: "c = 5" "cur = \<lparr>node_x = 2, node_y = 1, node_cost = 1, node_pind = 4\<rparr>"
    by (simp_all add: pass1_D_def)
  from nx iteration_D2 have "closedset pass2_D = closedset pass1_D @ [(c, cur)]
         \<and> expansion pass2_D = expansion pass1_D @
                      [(calc_position grid_D (node_x cur) (minx grid_D),
                        calc_position grid_D (node_y cur) (miny grid_D))]" by blast
  then have "closedset pass2_D = closedset pass1_D
        @ [(5, \<lparr>node_x = 2, node_y = 1, node_cost = 1, node_pind = 4\<rparr>)]"
    "expansion pass2_D = expansion pass1_D @ [(2, 1)]"
    by (simp_all add: ce calc_position_def grid_D_def)
  with r ne ks cs iteration_D2 plan_D_11_22 show ?thesis by (intro conjI)
  qed
qed

section \<open>Cheapest paths\<close>

subsection \<open>Walks\<close>

lemma free_cell_of: "free_cell g (cell_of n) \<longleftrightarrow> verify_node g n = Inr True"
  using verify_node_coords[of "\<lparr>node_x = node_x n, node_y = node_y n, node_cost = 0,
      node_pind = - 1\<rparr>" n g]
  by (simp add: free_cell_def cell_of_def)

lemma cell_key_of: "cell_key g (cell_of n) = calc_index g n"
  by (simp add: cell_key_def cell_of_def calc_index_def)

lemma move_cost_SomeD:
  assumes "move_cost c c' = Some w"
  shows "\<exists>m \<in> set get_motion_model.
           c' = (fst c + fst m, snd c + fst (snd m)) \<and> w = snd (snd m)"
proof -
  from assms have "((fst c' - fst c, snd c' - snd c), w)
      \<in> set (map (\<lambda>(dx, dy, w). ((dx, dy), w)) get_motion_model)"
    unfolding move_cost_def by (rule map_of_SomeD)
  then obtain m where m: "m \<in> set get_motion_model"
    and e: "((fst c' - fst c, snd c' - snd c), w) = (\<lambda>(dx, dy, w). ((dx, dy), w)) m"
    by auto
  from e have "c' = (fst c + fst m, snd c + fst (snd m)) \<and> w = snd (snd m)"
    by (cases m) (auto simp: prod_eq_iff)
  with m show ?thesis by blast
qed

lemma move_cost_motion:
  assumes "m \<in> set get_motion_model"
  shows "move_cost c (fst c + fst m, snd c + fst (snd m)) = Some (snd (snd m))"
proof -
  from assms have "m = (1, 0, 1) \<or> m = (0, 1, 1) \<or> m = (- 1, 0, 1) \<or> m = (0, - 1, 1)
      \<or> m = (- 1, - 1, sqrt 2) \<or> m = (- 1, 1, sqrt 2) \<or> m = (1, - 1, sqrt 2)
      \<or> m = (1, 1, sqrt 2)"
    by (simp add: get_motion_model_def)
  then show ?thesis
    by (elim disjE) (simp_all add: move_cost_def get_motion_model_def)
qed

lemma motion_pos: "m \<in> set get_motion_model \<Longrightarrow> 0 < snd (snd m)"
  by (auto simp: get_motion_model_def)

lemma move_cost_pos: "move_cost c c' = Some w \<Longrightarrow> 0 < w"
  by (auto dest!: move_cost_SomeD motion_pos)

lemma walk_nonempty: "walk g ps \<Longrightarrow> ps \<noteq> []"
  by auto

lemma walk_cost_nonneg: "0 \<le> walk_cost ps"
proof (induction ps rule: walk_cost.induct)
  case (1 c c' cs)
  then show ?case
    by (cases "move_cost c c'") (auto dest: move_cost_pos intro: add_nonneg_nonneg less_imp_le)
qed simp_all

lemma walk_free: "walk g ps \<Longrightarrow> c \<in> set ps \<Longrightarrow> free_cell g c"
  by (induction g ps rule: walk.induct) auto

lemma walk_snoc:
  assumes "walk g ps" and "free_cell g c'" and "move_cost (last ps) c' = Some w"
  shows "walk g (ps @ [c'])" and "walk_cost (ps @ [c']) = walk_cost ps + w"
    and "hd (ps @ [c']) = hd ps"
  using assms
proof (induction g ps rule: walk.induct)
  case (1 g)
  { case 1 then show ?case by simp }
  { case 2 then show ?case by simp }
  { case 3 then show ?case by simp }
next
  case (2 g c)
  { case 1 then show ?case by simp }
  { case 2 then show ?case by simp }
  { case 3 then show ?case by simp }
next
  case (3 g c c2 cs)
  { case 1 with 3(1) show ?case by simp }
  { case 2 with 3(2) show ?case by simp }
  { case 3 then show ?case by simp }
qed

lemma walk_split:
  assumes "walk g (pre @ p # v # post)"
  shows "walk g (pre @ [p]) \<and> free_cell g v
       \<and> (\<exists>w. move_cost p v = Some w
              \<and> walk_cost (pre @ p # v # post)
                  = walk_cost (pre @ [p]) + w + walk_cost (v # post))"
  using assms
proof (induction pre)
  case Nil
  then show ?case by (cases post) auto
next
  case (Cons a pre)
  then show ?case by (cases pre) auto
qed

lemma first_exit:
  assumes "ps \<noteq> []" and "P (hd ps)" and "\<not> P (last ps)"
  shows "\<exists>pre p v post. ps = pre @ p # v # post \<and> P p \<and> \<not> P v"
  using assms
proof (induction ps)
  case Nil
  then show ?case by simp
next
  case (Cons a ps)
  show ?case
  proof (cases ps)
    case Nil
    with Cons.prems show ?thesis by simp
  next
    case (Cons b qs)
    show ?thesis
    proof (cases "P b")
      case False
      with Cons \<open>P (hd (a # ps))\<close> have "a # ps = [] @ a # b # qs \<and> P a \<and> \<not> P b" by simp
      then show ?thesis by blast
    next
      case True
      with Cons Cons.prems have "ps \<noteq> []" "P (hd ps)" "\<not> P (last ps)" by auto
      from Cons.IH[OF this] obtain pre p v post where
        "ps = pre @ p # v # post \<and> P p \<and> \<not> P v" by blast
      then have "a # ps = (a # pre) @ p # v # post \<and> P p \<and> \<not> P v" by simp
      then show ?thesis by blast
    qed
  qed
qed

subsection \<open>The popped node is final\<close>

lemma sound_grid_inj:
  "sound_grid g \<Longrightarrow> free_cell g c \<Longrightarrow> free_cell g c' \<Longrightarrow> cell_key g c = cell_key g c'
     \<Longrightarrow> c = c'"
  unfolding sound_grid_def by blast

lemma sound_grid_no_fault: "sound_grid g \<Longrightarrow> verify_node g n \<noteq> Inl e"
  unfolding sound_grid_def by blast

lemma sound_grid_no_sentinel: "sound_grid g \<Longrightarrow> free_cell g c \<Longrightarrow> cell_key g c \<noteq> - 1"
  unfolding sound_grid_def by blast

lemma open_entry:
  assumes "search_inv g nstart s" and "(k, n) \<in> set (openset s)"
  shows "k = calc_index g n" and "n = nstart \<or> verify_node g n = Inr True"
  using assms by (force simp: search_inv_def entry_ok_def)+

lemma closed_entry':
  assumes "search_inv g nstart s" and "(k, n) \<in> set (closedset s)"
  shows "k = calc_index g n" and "n = nstart \<or> verify_node g n = Inr True"
proof -
  from assms(2) obtain i where i: "i < length (closedset s)" "closedset s ! i = (k, n)"
    by (auto simp: in_set_conv_nth)
  with assms(1) have "entry_ok g nstart (fst ` set (take i (closedset s))) k n"
    by (force simp: search_inv_def)
  then show "k = calc_index g n" and "n = nstart \<or> verify_node g n = Inr True"
    by (auto simp: entry_ok_def)
qed

lemma min_key_least:
  assumes d: "distinct (map fst d)" and mk: "min_key d = Inr c" and mo: "map_of d c = Some cur"
    and e: "(k, n) \<in> set d"
  shows "node_cost cur \<le> node_cost n"
proof -
  from e have "d \<noteq> []" by auto
  from min_key_position[OF this] mk obtain i where i: "i < length d" "c = fst (d ! i)"
    and le: "\<forall>j<length d. node_cost (snd (d ! i)) \<le> node_cost (snd (d ! j))" by auto
  from i have "(c, snd (d ! i)) \<in> set d" by (metis nth_mem prod.collapse)
  with d have "map_of d c = Some (snd (d ! i))" by (rule map_of_is_SomeI)
  with mo have c: "cur = snd (d ! i)" by simp
  from e obtain j where "j < length d" "d ! j = (k, n)" by (auto simp: in_set_conv_nth)
  with le c show ?thesis by force
qed

lemma dj_relaxed:
  "dijkstra_inv g nstart ngoal X s \<Longrightarrow> e \<in> set (closedset s) \<Longrightarrow> m \<in> set get_motion_model
     \<Longrightarrow> (snd e, m) \<notin> X \<Longrightarrow> relaxed g s (snd e) m"
  unfolding dijkstra_inv_def by blast

lemma dj_attained:
  "dijkstra_inv g nstart ngoal X s \<Longrightarrow> e \<in> set (openset s) \<union> set (closedset s)
     \<Longrightarrow> attained g (cell_of nstart) (snd e) \<and> linked nstart (closedset s) (snd e)"
  unfolding dijkstra_inv_def by blast

lemma dj_lower:
  "dijkstra_inv g nstart ngoal X s \<Longrightarrow> e \<in> set (closedset s)
     \<Longrightarrow> lower_bound g (cell_of nstart) (snd e) \<and> cell_of (snd e) \<noteq> cell_of ngoal"
  unfolding dijkstra_inv_def by blast

lemma dj_order:
  "dijkstra_inv g nstart ngoal X s \<Longrightarrow> u \<in> set (closedset s) \<Longrightarrow> v \<in> set (openset s)
     \<Longrightarrow> node_cost (snd u) \<le> node_cost (snd v)"
  unfolding dijkstra_inv_def by blast

lemma dj_first:
  "dijkstra_inv g nstart ngoal X s \<Longrightarrow> closedset s = []
     \<Longrightarrow> openset s = [(calc_index g nstart, nstart)]"
  unfolding dijkstra_inv_def by blast

lemma dj_start_closed:
  "dijkstra_inv g nstart ngoal X s \<Longrightarrow> closedset s \<noteq> []
     \<Longrightarrow> calc_index g nstart \<in> fst ` set (closedset s)"
  unfolding dijkstra_inv_def by blast

lemma crossing:
  assumes sg: "sound_grid g" and fs: "free_cell g (cell_of nstart)"
    and inv: "search_inv g nstart s" and dj: "dijkstra_inv g nstart ngoal {} s"
    and w: "walk g ps" and h: "hd ps = cell_of nstart"
    and ne: "closedset s \<noteq> []"
    and nl: "cell_key g (last ps) \<notin> fst ` set (closedset s)"
  shows "\<exists>e \<in> set (openset s). node_cost (snd e) \<le> walk_cost ps"
proof -
  let ?P = "\<lambda>c'. cell_key g c' \<in> fst ` set (closedset s)"
  have p0: "?P (hd ps)" using dj_start_closed[OF dj ne] by (simp add: h cell_key_of)
  from first_exit[of ps ?P, OF walk_nonempty[OF w] p0 nl]
  obtain pre p v post where ps: "ps = pre @ p # v # post"
    and pp: "cell_key g p \<in> fst ` set (closedset s)"
    and pv: "cell_key g v \<notin> fst ` set (closedset s)" by blast
  from walk_split[OF w[unfolded ps]] obtain wt where
    w1: "walk g (pre @ [p])" and fv: "free_cell g v" and mv: "move_cost p v = Some wt"
    and wc: "walk_cost ps = walk_cost (pre @ [p]) + wt + walk_cost (v # post)"
    unfolding ps by blast
  from pp obtain u where u: "(cell_key g p, u) \<in> set (closedset s)" by auto
  have uk: "cell_key g p = calc_index g u" and uv: "u = nstart \<or> verify_node g u = Inr True"
    by (rule closed_entry'[OF inv u])+
  have fu: "free_cell g (cell_of u)" using uv fs by (auto simp: free_cell_of)
  have fp: "free_cell g p" using walk_free[OF w1] by simp
  have cu: "cell_of u = p"
    by (rule sound_grid_inj[OF sg fu fp]) (simp add: cell_key_of uk)
  have hp: "hd (pre @ [p]) = cell_of nstart" using h ps by (cases pre) auto
  from dj_lower[OF dj u] have "lower_bound g (cell_of nstart) u" by simp
  with w1 hp cu have b: "node_cost u \<le> walk_cost (pre @ [p])"
    by (simp add: lower_bound_def)
  from move_cost_SomeD[OF mv] obtain mm where mm: "mm \<in> set get_motion_model"
    and ve: "v = (fst p + fst mm, snd p + fst (snd mm))" and we: "wt = snd (snd mm)" by blast
  from dj_relaxed[OF dj u mm] have "relaxed g s u mm" by simp
  moreover have "(node_x u + fst mm, node_y u + fst (snd mm)) = v"
    using cu ve by (auto simp: cell_of_def)
  ultimately obtain n' where n': "map_of (openset s) (cell_key g v) = Some n'"
    and nc: "node_cost n' \<le> node_cost u + wt"
    using fv pv by (auto simp: relaxed_def we)
  from n' have m: "(cell_key g v, n') \<in> set (openset s)" by (rule map_of_SomeD)
  have "node_cost n' \<le> walk_cost (pre @ [p]) + wt" using nc b by simp
  also have "\<dots> \<le> walk_cost ps" using wc walk_cost_nonneg[of "v # post"] by simp
  finally have "node_cost (snd (cell_key g v, n')) \<le> walk_cost ps" by simp
  with m show ?thesis by blast
qed

lemma pop_optimal:
  assumes sg: "sound_grid g" and fs: "free_cell g (cell_of nstart)"
    and z: "node_cost nstart = 0"
    and inv: "search_inv g nstart s" and dj: "dijkstra_inv g nstart ngoal {} s"
    and mk: "min_key (openset s) = Inr c" and mo: "map_of (openset s) c = Some cur"
  shows "lower_bound g (cell_of nstart) cur"
  unfolding lower_bound_def
proof (intro allI impI)
  fix ps assume w: "walk g ps" and h: "hd ps = cell_of nstart" and l: "last ps = cell_of cur"
  from mo have m: "(c, cur) \<in> set (openset s)" by (rule map_of_SomeD)
  have d: "distinct (map fst (openset s))" using inv by (simp add: search_inv_def)
  show "node_cost cur \<le> walk_cost ps"
  proof (cases "closedset s = []")
    case True
    from dj_first[OF dj True] m have "cur = nstart" by simp
    with z walk_cost_nonneg[of ps] show ?thesis by simp
  next
    case False
    have "c = calc_index g cur" by (rule open_entry(1)[OF inv m])
    moreover from m have "c \<in> fst ` set (openset s)" by force
    ultimately have "cell_key g (last ps) \<notin> fst ` set (closedset s)"
      using inv by (auto simp: l cell_key_of search_inv_def)
    from crossing[OF sg fs inv dj w h False this] obtain e where
      e: "e \<in> set (openset s)" "node_cost (snd e) \<le> walk_cost ps" by blast
    from min_key_least[OF d mk mo, of "fst e" "snd e"] e(1)
    have "node_cost cur \<le> node_cost (snd e)" by simp
    with e(2) show ?thesis by simp
  qed
qed

subsection \<open>The invariant is kept\<close>

lemma dijkstra_invI:
  assumes "\<And>e. e \<in> set (openset s) \<union> set (closedset s) \<Longrightarrow>
             attained g (cell_of nstart) (snd e) \<and> linked nstart (closedset s) (snd e)"
    and "\<And>e. e \<in> set (closedset s) \<Longrightarrow>
             lower_bound g (cell_of nstart) (snd e) \<and> cell_of (snd e) \<noteq> cell_of ngoal"
    and "\<And>e m. e \<in> set (closedset s) \<Longrightarrow> m \<in> set get_motion_model \<Longrightarrow> (snd e, m) \<notin> X
             \<Longrightarrow> relaxed g s (snd e) m"
    and "\<And>u v. u \<in> set (closedset s) \<Longrightarrow> v \<in> set (openset s)
             \<Longrightarrow> node_cost (snd u) \<le> node_cost (snd v)"
    and "closedset s = [] \<Longrightarrow> openset s = [(calc_index g nstart, nstart)]"
    and "closedset s \<noteq> [] \<Longrightarrow> calc_index g nstart \<in> fst ` set (closedset s)"
  shows "dijkstra_inv g nstart ngoal X s"
  unfolding dijkstra_inv_def
proof (intro conjI ballI impI)
  fix e assume "e \<in> set (openset s) \<union> set (closedset s)"
  from assms(1)[OF this] show "attained g (cell_of nstart) (snd e)"
    and "linked nstart (closedset s) (snd e)" by simp_all
next
  fix e assume "e \<in> set (closedset s)"
  from assms(2)[OF this] show "lower_bound g (cell_of nstart) (snd e)"
    and "cell_of (snd e) \<noteq> cell_of ngoal" by simp_all
next
  fix e m assume "e \<in> set (closedset s)" "m \<in> set get_motion_model" "(snd e, m) \<notin> X"
  then show "relaxed g s (snd e) m" by (rule assms(3))
next
  fix u v assume "u \<in> set (closedset s)" "v \<in> set (openset s)"
  then show "node_cost (snd u) \<le> node_cost (snd v)" by (rule assms(4))
next
  assume "closedset s = []" then show "openset s = [(calc_index g nstart, nstart)]"
    by (rule assms(5))
next
  assume "closedset s \<noteq> []" then show "calc_index g nstart \<in> fst ` set (closedset s)"
    by (rule assms(6))
qed

lemma relaxed_pop:
  assumes "relaxed g s u m" and "closedset s2 = closedset s @ [(c, cur)]"
    and "openset s2 = AList.delete c (openset s)"
  shows "relaxed g s2 u m"
  unfolding relaxed_def
proof
  let ?k = "cell_key g (node_x u + fst m, node_y u + fst (snd m))"
  assume "free_cell g (node_x u + fst m, node_y u + fst (snd m))"
  with assms(1) have "?k \<in> fst ` set (closedset s)
     \<or> (\<exists>n'. map_of (openset s) ?k = Some n' \<and> node_cost n' \<le> node_cost u + snd (snd m))"
    by (simp add: relaxed_def)
  then show "?k \<in> fst ` set (closedset s2)
     \<or> (\<exists>n'. map_of (openset s2) ?k = Some n' \<and> node_cost n' \<le> node_cost u + snd (snd m))"
  proof
    assume "?k \<in> fst ` set (closedset s)"
    then show ?thesis by (simp add: assms(2))
  next
    assume a: "\<exists>n'. map_of (openset s) ?k = Some n' \<and> node_cost n' \<le> node_cost u + snd (snd m)"
    show ?thesis
    proof (cases "?k = c")
      case True
      then show ?thesis by (simp add: assms(2))
    next
      case False
      with a show ?thesis by (simp add: assms(3))
    qed
  qed
qed

lemma relaxed_update:
  assumes "relaxed g s u m" and "closedset s' = closedset s"
    and "openset s' = AList.update k node (openset s)"
    and "\<forall>old. map_of (openset s) k = Some old \<longrightarrow> node_cost node < node_cost old"
  shows "relaxed g s' u m"
  unfolding relaxed_def
proof
  let ?k = "cell_key g (node_x u + fst m, node_y u + fst (snd m))"
  assume "free_cell g (node_x u + fst m, node_y u + fst (snd m))"
  with assms(1) have "?k \<in> fst ` set (closedset s)
     \<or> (\<exists>n'. map_of (openset s) ?k = Some n' \<and> node_cost n' \<le> node_cost u + snd (snd m))"
    by (simp add: relaxed_def)
  then show "?k \<in> fst ` set (closedset s')
     \<or> (\<exists>n'. map_of (openset s') ?k = Some n' \<and> node_cost n' \<le> node_cost u + snd (snd m))"
  proof
    assume "?k \<in> fst ` set (closedset s)"
    then show ?thesis by (simp add: assms(2))
  next
    assume "\<exists>n'. map_of (openset s) ?k = Some n' \<and> node_cost n' \<le> node_cost u + snd (snd m)"
    then obtain n' where n': "map_of (openset s) ?k = Some n'"
      "node_cost n' \<le> node_cost u + snd (snd m)" by blast
    show ?thesis
    proof (cases "?k = k")
      case True
      with n' assms(4) have "node_cost node < node_cost n'" by simp
      with n' True show ?thesis by (simp add: assms(3) update_conv')
    next
      case False
      with n' show ?thesis by (simp add: assms(3) update_conv')
    qed
  qed
qed

lemma expand_one_relaxes:
  assumes "expand_one g c cur m s = Inr s'"
  shows "relaxed g s' cur m"
proof -
  let ?node = "\<lparr>node_x = node_x cur + fst m, node_y = node_y cur + fst (snd m),
                node_cost = node_cost cur + snd (snd m), node_pind = c\<rparr>"
  have f: "free_cell g (node_x cur + fst m, node_y cur + fst (snd m))
            \<longleftrightarrow> verify_node g ?node = Inr True"
    using free_cell_of[of g ?node] by (simp add: cell_of_def)
  have k: "cell_key g (node_x cur + fst m, node_y cur + fst (snd m)) = calc_index g ?node"
    using cell_key_of[of g ?node] by (simp add: cell_of_def)
  show ?thesis
    unfolding relaxed_def f k
    using assms
    by (auto simp: expand_one_def Let_def update_conv'
        split: if_splits sum.splits option.splits)
qed

lemma linked_mono:
  assumes "linked nstart cs n" and "\<And>k p. map_of cs k = Some p \<Longrightarrow> map_of cs' k = Some p"
  shows "linked nstart cs' n"
  using assms unfolding linked_def by blast

lemma map_of_snoc_Some: "map_of cs k = Some p \<Longrightarrow> map_of (cs @ [x]) k = Some p"
  by simp

lemma dijkstra_expand_one:
  assumes inv: "search_inv g nstart s" and dj: "dijkstra_inv g nstart ngoal X s"
    and cc: "(c, cur) \<in> set (closedset s)"
    and G: "\<forall>u \<in> set (closedset s). node_cost (snd u) \<le> node_cost cur"
    and mm: "m \<in> set get_motion_model"
    and e: "expand_one g c cur m s = Inr s'"
  shows "dijkstra_inv g nstart ngoal (X - {(cur, m)}) s'"
proof -
  note cs = expand_one_cases[OF e]
  then have cl: "closedset s' = closedset s" by simp
  have rel: "relaxed g s' cur m" by (rule expand_one_relaxes[OF e])
  from cs have "openset s' = openset s
          \<or> (\<exists>node. openset s' = AList.update (calc_index g node) node (openset s)
                \<and> verify_node g node = Inr True
                \<and> node_pind node = c
                \<and> node_x node = node_x cur + fst m
                \<and> node_y node = node_y cur + fst (snd m)
                \<and> node_cost node = node_cost cur + snd (snd m)
                \<and> (\<forall>old. map_of (openset s) (calc_index g node) = Some old
                      \<longrightarrow> node_cost node < node_cost old))" by blast
  then show ?thesis
  proof
    assume op: "openset s' = openset s"
    have "relaxed g s' (snd e') m'"
      if "e' \<in> set (closedset s)" "m' \<in> set get_motion_model" "(snd e', m') \<notin> X - {(cur, m)}"
      for e' m'
    proof (cases "(snd e', m') = (cur, m)")
      case True
      with rel show ?thesis by simp
    next
      case False
      with that(3) have "(snd e', m') \<notin> X" by blast
      then have "relaxed g s (snd e') m'" by (rule dj_relaxed[OF dj that(1,2)])
      then show ?thesis by (simp add: relaxed_def op cl)
    qed
    then have 3: "\<And>e' m'. e' \<in> set (closedset s') \<Longrightarrow> m' \<in> set get_motion_model
        \<Longrightarrow> (snd e', m') \<notin> X - {(cur, m)} \<Longrightarrow> relaxed g s' (snd e') m'"
      by (simp add: cl)
    show ?thesis
    proof (rule dijkstra_invI)
      fix e' assume "e' \<in> set (openset s') \<union> set (closedset s')"
      then have "e' \<in> set (openset s) \<union> set (closedset s)" by (simp add: op cl)
      from dj_attained[OF dj this]
      show "attained g (cell_of nstart) (snd e') \<and> linked nstart (closedset s') (snd e')"
        by (simp add: cl)
    next
      fix e' assume "e' \<in> set (closedset s')"
      then have "e' \<in> set (closedset s)" by (simp add: cl)
      from dj_lower[OF dj this]
      show "lower_bound g (cell_of nstart) (snd e') \<and> cell_of (snd e') \<noteq> cell_of ngoal" .
    next
      fix e' m' assume "e' \<in> set (closedset s')" "m' \<in> set get_motion_model"
        "(snd e', m') \<notin> X - {(cur, m)}"
      then show "relaxed g s' (snd e') m'" by (rule 3)
    next
      fix u v' assume "u \<in> set (closedset s')" "v' \<in> set (openset s')"
      then have "u \<in> set (closedset s)" "v' \<in> set (openset s)" by (simp_all add: op cl)
      then show "node_cost (snd u) \<le> node_cost (snd v')" by (rule dj_order[OF dj])
    next
      assume "closedset s' = []" with cc show "openset s' = [(calc_index g nstart, nstart)]"
        by (simp add: cl)
    next
      assume "closedset s' \<noteq> []"
      then have "closedset s \<noteq> []" by (simp add: cl)
      from dj_start_closed[OF dj this]
      show "calc_index g nstart \<in> fst ` set (closedset s')" by (simp add: cl)
    qed
  next
    assume "\<exists>node. openset s' = AList.update (calc_index g node) node (openset s)
                \<and> verify_node g node = Inr True
                \<and> node_pind node = c
                \<and> node_x node = node_x cur + fst m
                \<and> node_y node = node_y cur + fst (snd m)
                \<and> node_cost node = node_cost cur + snd (snd m)
                \<and> (\<forall>old. map_of (openset s) (calc_index g node) = Some old
                      \<longrightarrow> node_cost node < node_cost old)"
    then obtain node where op: "openset s' = AList.update (calc_index g node) node (openset s)"
      and v: "verify_node g node = Inr True" and p: "node_pind node = c"
      and x: "node_x node = node_x cur + fst m" and y: "node_y node = node_y cur + fst (snd m)"
      and co: "node_cost node = node_cost cur + snd (snd m)"
      and lt: "\<forall>old. map_of (openset s) (calc_index g node) = Some old
                      \<longrightarrow> node_cost node < node_cost old" by blast
    have mc: "move_cost (cell_of cur) (cell_of node) = Some (snd (snd m))"
      using move_cost_motion[OF mm, of "cell_of cur"] by (simp add: cell_of_def x y)
    from dj_attained[OF dj, of "(c, cur)"] cc have "attained g (cell_of nstart) cur" by simp
    then obtain ps where ps: "walk g ps" "hd ps = cell_of nstart" "last ps = cell_of cur"
      "walk_cost ps = node_cost cur" by (auto simp: attained_def)
    have fn: "free_cell g (cell_of node)" using v by (simp add: free_cell_of)
    from walk_snoc[OF ps(1) fn, of "snd (snd m)"] mc ps
    have "walk g (ps @ [cell_of node])" "walk_cost (ps @ [cell_of node]) = node_cost node"
      "hd (ps @ [cell_of node]) = cell_of nstart" by (simp_all add: co)
    then have at: "attained g (cell_of nstart) node"
      unfolding attained_def by (intro exI[of _ "ps @ [cell_of node]"]) simp
    have "distinct (map fst (closedset s))" using inv by (simp add: search_inv_def)
    from map_of_is_SomeI[OF this cc] have "map_of (closedset s) (node_pind node) = Some cur"
      by (simp add: p)
    with mc co have li: "linked nstart (closedset s) node"
      unfolding linked_def by blast
    have sub: "set (openset s') \<subseteq> insert (calc_index g node, node) (set (openset s))"
      unfolding op by (rule set_update_subset)
    have 1: "attained g (cell_of nstart) (snd e') \<and> linked nstart (closedset s') (snd e')"
      if "e' \<in> set (openset s') \<union> set (closedset s')" for e'
    proof -
      from that sub have "e' = (calc_index g node, node)
          \<or> e' \<in> set (openset s) \<union> set (closedset s)" by (auto simp: cl)
      then show ?thesis
      proof
        assume "e' = (calc_index g node, node)"
        with at li show ?thesis by (simp add: cl)
      next
        assume "e' \<in> set (openset s) \<union> set (closedset s)"
        from dj_attained[OF dj this] show ?thesis by (simp add: cl)
      qed
    qed
    have 3: "relaxed g s' (snd e') m'"
      if "e' \<in> set (closedset s)" "m' \<in> set get_motion_model" "(snd e', m') \<notin> X - {(cur, m)}"
      for e' m'
    proof (cases "(snd e', m') = (cur, m)")
      case True
      with rel show ?thesis by simp
    next
      case False
      with that(3) have "(snd e', m') \<notin> X" by blast
      then have "relaxed g s (snd e') m'" by (rule dj_relaxed[OF dj that(1,2)])
      then show ?thesis using cl op lt by (rule relaxed_update)
    qed
    have 4: "node_cost (snd u) \<le> node_cost (snd v')"
      if "u \<in> set (closedset s)" "v' \<in> set (openset s')" for u v'
    proof -
      from that(2) sub have "v' = (calc_index g node, node) \<or> v' \<in> set (openset s)" by auto
      then show ?thesis
      proof
        assume "v' = (calc_index g node, node)"
        with G that(1) motion_pos[OF mm] show ?thesis by (auto simp: co intro: order_trans)
      next
        assume "v' \<in> set (openset s)"
        with that(1) show ?thesis by (rule dj_order[OF dj])
      qed
    qed
    have 5: "closedset s \<noteq> []" using cc by auto
    show ?thesis
    proof (rule dijkstra_invI)
      fix e' assume "e' \<in> set (openset s') \<union> set (closedset s')"
      then show "attained g (cell_of nstart) (snd e') \<and> linked nstart (closedset s') (snd e')"
        by (rule 1)
    next
      fix e' assume "e' \<in> set (closedset s')"
      then have "e' \<in> set (closedset s)" by (simp add: cl)
      from dj_lower[OF dj this]
      show "lower_bound g (cell_of nstart) (snd e') \<and> cell_of (snd e') \<noteq> cell_of ngoal" .
    next
      fix e' m' assume "e' \<in> set (closedset s')" "m' \<in> set get_motion_model"
        "(snd e', m') \<notin> X - {(cur, m)}"
      then show "relaxed g s' (snd e') m'" using 3 by (simp add: cl)
    next
      fix u v' assume "u \<in> set (closedset s')" "v' \<in> set (openset s')"
      then show "node_cost (snd u) \<le> node_cost (snd v')" using 4 by (simp add: cl)
    next
      assume "closedset s' = []" with 5 show "openset s' = [(calc_index g nstart, nstart)]"
        by (simp add: cl)
    next
      assume "closedset s' \<noteq> []"
      then have "closedset s \<noteq> []" by (simp add: cl)
      from dj_start_closed[OF dj this]
      show "calc_index g nstart \<in> fst ` set (closedset s')" by (simp add: cl)
    qed
  qed
qed

lemma dijkstra_expand:
  assumes "search_inv g nstart s" and "dijkstra_inv g nstart ngoal X s"
    and "(c, cur) \<in> set (closedset s)"
    and "\<forall>u \<in> set (closedset s). node_cost (snd u) \<le> node_cost cur"
    and "set ms \<subseteq> set get_motion_model"
    and "expand g c cur ms s = Inr s'"
  shows "dijkstra_inv g nstart ngoal (X - {cur} \<times> set ms) s'"
  using assms
proof (induction ms arbitrary: s X)
  case Nil
  then show ?case by simp
next
  case (Cons m ms)
  from Cons.prems(6) obtain s1 where 1: "expand_one g c cur m s = Inr s1"
    and 2: "expand g c cur ms s1 = Inr s'" by (auto split: sum.splits)
  from Cons.prems(5) have mm: "m \<in> set get_motion_model" and ms: "set ms \<subseteq> set get_motion_model"
    by auto
  have ck: "c \<in> fst ` set (closedset s)" using Cons.prems(3) by force
  have i1: "search_inv g nstart s1" by (rule search_inv_expand_one[OF Cons.prems(1) ck 1])
  have d1: "dijkstra_inv g nstart ngoal (X - {(cur, m)}) s1"
    by (rule dijkstra_expand_one[OF Cons.prems(1,2,3,4) mm 1])
  have cl: "closedset s1 = closedset s" using expand_one_cases[OF 1] by simp
  from Cons.IH[OF i1 d1 _ _ ms 2] Cons.prems(3,4)
  have "dijkstra_inv g nstart ngoal (X - {(cur, m)} - {cur} \<times> set ms) s'" by (simp add: cl)
  moreover have "X - {(cur, m)} - {cur} \<times> set ms = X - {cur} \<times> set (m # ms)" by auto
  ultimately show ?case by simp
qed

lemma dijkstra_pop:
  fixes ex :: "(real \<times> real) list"
  assumes sg: "sound_grid g" and fs: "free_cell g (cell_of nstart)"
    and z: "node_cost nstart = 0"
    and inv: "search_inv g nstart s" and dj: "dijkstra_inv g nstart ngoal {} s"
    and mk: "min_key (openset s) = Inr c" and mo: "map_of (openset s) c = Some cur"
    and ng: "cell_of cur \<noteq> cell_of ngoal"
  defines "s2 \<equiv> s\<lparr>expansion := ex, openset := AList.delete c (openset s),
                     closedset := AList.update c cur (closedset s)\<rparr>"
  shows "dijkstra_inv g nstart ngoal ({cur} \<times> set get_motion_model) s2"
    and "\<forall>u \<in> set (closedset s2). node_cost (snd u) \<le> node_cost cur"
proof -
  from mo have m: "(c, cur) \<in> set (openset s)" by (rule map_of_SomeD)
  have cl: "closedset s2 = closedset s @ [(c, cur)]"
    unfolding s2_def by (rule search_inv_pop(2)[OF inv m])
  have op: "openset s2 = AList.delete c (openset s)" by (simp add: s2_def)
  have sub: "set (openset s2) \<subseteq> set (openset s)" unfolding op by (rule set_delete_subset)
  have d: "distinct (map fst (openset s))" using inv by (simp add: search_inv_def)
  have lo: "lower_bound g (cell_of nstart) cur"
    by (rule pop_optimal[OF sg fs z inv dj mk mo])
  have G0: "node_cost (snd u) \<le> node_cost cur" if "u \<in> set (closedset s)" for u
    using dj_order[OF dj that m] by simp
  then show G: "\<forall>u \<in> set (closedset s2). node_cost (snd u) \<le> node_cost cur"
    by (auto simp: cl)
  show "dijkstra_inv g nstart ngoal ({cur} \<times> set get_motion_model) s2"
  proof (rule dijkstra_invI)
    fix e assume "e \<in> set (openset s2) \<union> set (closedset s2)"
    with sub m have "e \<in> set (openset s) \<union> set (closedset s)" by (auto simp: cl)
    from dj_attained[OF dj this]
    have a: "attained g (cell_of nstart) (snd e)" and l: "linked nstart (closedset s) (snd e)"
      by simp_all
    from l have "linked nstart (closedset s2) (snd e)"
      unfolding cl by (rule linked_mono) (rule map_of_snoc_Some)
    with a show "attained g (cell_of nstart) (snd e) \<and> linked nstart (closedset s2) (snd e)" ..
  next
    fix e assume "e \<in> set (closedset s2)"
    then have "e \<in> set (closedset s) \<or> e = (c, cur)" by (auto simp: cl)
    then show "lower_bound g (cell_of nstart) (snd e) \<and> cell_of (snd e) \<noteq> cell_of ngoal"
    proof
      assume "e \<in> set (closedset s)" then show ?thesis by (rule dj_lower[OF dj])
    next
      assume "e = (c, cur)" with lo ng show ?thesis by simp
    qed
  next
    fix e mm assume e: "e \<in> set (closedset s2)" and mm: "mm \<in> set get_motion_model"
      and x: "(snd e, mm) \<notin> {cur} \<times> set get_motion_model"
    from x mm have "snd e \<noteq> cur" by auto
    with e have "e \<in> set (closedset s)" by (auto simp: cl)
    from dj_relaxed[OF dj this mm] have "relaxed g s (snd e) mm" by simp
    then show "relaxed g s2 (snd e) mm" using cl op by (rule relaxed_pop)
  next
    fix u v assume u: "u \<in> set (closedset s2)" and v: "v \<in> set (openset s2)"
    from v sub have v': "v \<in> set (openset s)" by auto
    from u have "u \<in> set (closedset s) \<or> u = (c, cur)" by (auto simp: cl)
    then show "node_cost (snd u) \<le> node_cost (snd v)"
    proof
      assume "u \<in> set (closedset s)" then show ?thesis using v' by (rule dj_order[OF dj])
    next
      assume "u = (c, cur)"
      moreover obtain k n where "v = (k, n)" by (cases v)
      ultimately show ?thesis using min_key_least[OF d mk mo, of k n] v' by simp
    qed
  next
    assume "closedset s2 = []" then show "openset s2 = [(calc_index g nstart, nstart)]"
      by (simp add: cl)
  next
    show "calc_index g nstart \<in> fst ` set (closedset s2)"
    proof (cases "closedset s = []")
      case True
      from dj_first[OF dj True] m have "c = calc_index g nstart" by simp
      then show ?thesis by (simp add: cl)
    next
      case False
      from dj_start_closed[OF dj False] show ?thesis by (simp add: cl)
    qed
  qed
qed

lemma dijkstra_Next:
  assumes sg: "sound_grid g" and fs: "free_cell g (cell_of nstart)"
    and z: "node_cost nstart = 0"
    and inv: "search_inv g nstart s" and dj: "dijkstra_inv g nstart ngoal {} s"
    and it: "iteration g ngoal s = Next s'"
  shows "dijkstra_inv g nstart ngoal {} s'"
proof -
  from it obtain c cur where mk: "min_key (openset s) = Inr c"
    and mo: "map_of (openset s) c = Some cur"
    and ng: "\<not> (node_x cur = node_x ngoal \<and> node_y cur = node_y ngoal)"
    and ex: "expand g c cur get_motion_model
       (s\<lparr>expansion := expansion s @
              [(calc_position g (node_x cur) (minx g), calc_position g (node_y cur) (miny g))],
          openset := AList.delete c (openset s),
          closedset := AList.update c cur (closedset s)\<rparr>) = Inr s'"
    by (rule iteration_Next)
  let ?s2 = "s\<lparr>expansion := expansion s @
              [(calc_position g (node_x cur) (minx g), calc_position g (node_y cur) (miny g))],
          openset := AList.delete c (openset s),
          closedset := AList.update c cur (closedset s)\<rparr>"
  from mo have m: "(c, cur) \<in> set (openset s)" by (rule map_of_SomeD)
  from ng have ng': "cell_of cur \<noteq> cell_of ngoal" by (auto simp: cell_of_def)
  note p = search_inv_pop[OF inv m, of "expansion s @
              [(calc_position g (node_x cur) (minx g), calc_position g (node_y cur) (miny g))]"]
  note q = dijkstra_pop[OF sg fs z inv dj mk mo ng', of "expansion s @
              [(calc_position g (node_x cur) (minx g), calc_position g (node_y cur) (miny g))]"]
  have cc: "(c, cur) \<in> set (closedset ?s2)" using p(2) by simp
  from dijkstra_expand[OF p(1) q(1) cc q(2) subset_refl ex]
  show ?thesis by simp
qed

lemma dijkstra_start:
  assumes "free_cell g (cell_of nstart)" and "node_cost nstart = 0"
  shows "dijkstra_inv g nstart ngoal {} (start_state g nstart)"
proof (rule dijkstra_invI)
  fix e assume "e \<in> set (openset (start_state g nstart)) \<union> set (closedset (start_state g nstart))"
  then have e: "snd e = nstart" by (auto simp: start_state_def)
  have "walk g [cell_of nstart] \<and> hd [cell_of nstart] = cell_of nstart
      \<and> last [cell_of nstart] = cell_of nstart \<and> walk_cost [cell_of nstart] = node_cost nstart"
    using assms by simp
  then have "attained g (cell_of nstart) nstart" unfolding attained_def by blast
  then show "attained g (cell_of nstart) (snd e)
      \<and> linked nstart (closedset (start_state g nstart)) (snd e)"
    by (simp add: e linked_def)
qed (simp_all add: start_state_def)

lemma dijkstra_reach:
  assumes "sound_grid g" and "free_cell g (cell_of nstart)" and "node_cost nstart = 0"
    and "reach g ngoal (start_state g nstart) s"
  shows "dijkstra_inv g nstart ngoal {} s"
  using assms(4)
proof (induction rule: reach.induct)
  case reach_start
  show ?case by (rule dijkstra_start[OF assms(2,3)])
next
  case (reach_next s s')
  have "search_inv g nstart s" by (rule search_inv_reach[OF reach_next(1) search_inv_start])
  then show ?case using reach_next(3,2) by (rule dijkstra_Next[OF assms(1-3)])
qed

subsection \<open>A reachable goal is found by a cheapest path\<close>

lemma expand_one_Inl_verify:
  "expand_one g c cur m s = Inl e \<Longrightarrow> \<exists>n. verify_node g n = Inl e"
  by (auto simp: expand_one_def Let_def split: if_splits sum.splits option.splits)

lemma expand_Inl_verify: "expand g c cur ms s = Inl e \<Longrightarrow> \<exists>n. verify_node g n = Inl e"
  by (induction ms arbitrary: s) (auto dest: expand_one_Inl_verify split: sum.splits)

lemma iteration_Raise_sound:
  assumes sg: "sound_grid g" and it: "iteration g ngoal s = Raise e"
  shows "openset s = [] \<and> e = ValueError"
proof (cases "min_key (openset s)")
  case (Inl e')
  with it have "e' = e" by (simp add: iteration_def)
  with min_key_Inl[OF Inl] show ?thesis by simp
next
  case (Inr c)
  from map_of_key[OF min_key_Inr[OF Inr]] obtain cur where "map_of (openset s) c = Some cur" ..
  with it Inr have "\<exists>n. verify_node g n = Inl e"
    by (auto simp: iteration_def Let_def dest: expand_Inl_verify split: if_splits sum.splits)
  with sound_grid_no_fault[OF sg] show ?thesis by blast
qed

lemma frontier_nonempty:
  assumes sg: "sound_grid g" and fs: "free_cell g (cell_of nstart)"
    and inv: "search_inv g nstart s" and dj: "dijkstra_inv g nstart ngoal {} s"
    and w: "walk g ps" and h: "hd ps = cell_of nstart" and l: "last ps = cell_of ngoal"
  shows "openset s \<noteq> []"
proof (cases "closedset s = []")
  case True
  from dj_first[OF dj True] show ?thesis by simp
next
  case False
  have "cell_key g (last ps) \<notin> fst ` set (closedset s)"
  proof
    assume "cell_key g (last ps) \<in> fst ` set (closedset s)"
    then obtain u where u: "(cell_key g (last ps), u) \<in> set (closedset s)" by auto
    have uk: "cell_key g (last ps) = calc_index g u"
      and uv: "u = nstart \<or> verify_node g u = Inr True"
      by (rule closed_entry'[OF inv u])+
    have fu: "free_cell g (cell_of u)" using uv fs by (auto simp: free_cell_of)
    have fl: "free_cell g (last ps)" using walk_free[OF w] walk_nonempty[OF w] by simp
    have "cell_of u = last ps"
      by (rule sound_grid_inj[OF sg fu fl]) (simp add: cell_key_of uk)
    with dj_lower[OF dj u] l show False by simp
  qed
  from crossing[OF sg fs inv dj w h False this] show ?thesis by auto
qed

lemma chain_walk:
  assumes sg: "sound_grid g" and fs: "free_cell g (cell_of nstart)"
    and z: "node_cost nstart = 0" and st: "node_pind nstart = - 1"
    and inv: "search_inv g nstart s" and dj: "dijkstra_inv g nstart ngoal X s"
  shows "chain (closedset s) (node_pind n0) ns \<Longrightarrow> linked nstart (closedset s) n0 \<Longrightarrow>
     free_cell g (cell_of n0) \<Longrightarrow>
     walk g (rev (map cell_of (n0 # ns)))
     \<and> hd (rev (map cell_of (n0 # ns))) = cell_of nstart
     \<and> walk_cost (rev (map cell_of (n0 # ns))) = node_cost n0"
proof (induction ns arbitrary: n0)
  case Nil
  then have p: "node_pind n0 = - 1" by simp
  have "n0 = nstart"
  proof (rule ccontr)
    assume "n0 \<noteq> nstart"
    with Nil(2) p obtain q where "map_of (closedset s) (- 1) = Some q"
      by (auto simp: linked_def)
    then have q: "(- 1, q) \<in> set (closedset s)" by (rule map_of_SomeD)
    have "- 1 = calc_index g q" and "q = nstart \<or> verify_node g q = Inr True"
      by (rule closed_entry'[OF inv q])+
    then have "free_cell g (cell_of q)" "cell_key g (cell_of q) = - 1"
      using fs by (auto simp: free_cell_of cell_key_of)
    with sound_grid_no_sentinel[OF sg] show False by blast
  qed
  with fs z show ?case by simp
next
  case (Cons n1 ns)
  from Cons.prems(1) have p: "node_pind n0 \<noteq> - 1"
    and m: "map_of (closedset s) (node_pind n0) = Some n1"
    and c: "chain (closedset s) (node_pind n1) ns" by simp_all
  from p st have "n0 \<noteq> nstart" by auto
  with Cons.prems(2) m obtain wt where mc: "move_cost (cell_of n1) (cell_of n0) = Some wt"
    and co: "node_cost n0 = node_cost n1 + wt" by (auto simp: linked_def)
  from m have e: "(node_pind n0, n1) \<in> set (closedset s)" by (rule map_of_SomeD)
  from dj_attained[OF dj, of "(node_pind n0, n1)"] e
  have l1: "linked nstart (closedset s) n1" by simp
  have "n1 = nstart \<or> verify_node g n1 = Inr True" by (rule closed_entry'(2)[OF inv e])
  then have f1: "free_cell g (cell_of n1)" using fs by (auto simp: free_cell_of)
  from Cons.IH[OF c l1 f1] have w: "walk g (rev (map cell_of (n1 # ns)))"
    and h: "hd (rev (map cell_of (n1 # ns))) = cell_of nstart"
    and k: "walk_cost (rev (map cell_of (n1 # ns))) = node_cost n1" by simp_all
  have la: "last (rev (map cell_of (n1 # ns))) = cell_of n1" by simp
  have r: "rev (map cell_of (n0 # n1 # ns)) = rev (map cell_of (n1 # ns)) @ [cell_of n0]"
    by simp
  from walk_snoc[OF w Cons.prems(3), of wt] mc la h k co
  show ?case unfolding r by simp
qed

lemma run_search_cheapest:
  assumes st: "node_pind nstart = - 1" and z: "node_cost nstart = 0"
    and sg: "sound_grid g" and fs: "free_cell g (cell_of nstart)"
    and w0: "walk g ps0" "hd ps0 = cell_of nstart" "last ps0 = cell_of ngoal"
  shows "\<exists>rx ry ex cs. run_search g nstart ngoal = Some (Inr (rx, ry, ex))
      \<and> rx = map (\<lambda>c. calc_position g (fst c) (minx g)) cs
      \<and> ry = map (\<lambda>c. calc_position g (snd c) (miny g)) cs
      \<and> walk g (rev cs) \<and> hd (rev cs) = cell_of nstart \<and> last (rev cs) = cell_of ngoal
      \<and> (\<forall>ps. walk g ps \<longrightarrow> hd ps = cell_of nstart \<longrightarrow> last ps = cell_of ngoal
            \<longrightarrow> walk_cost (rev cs) \<le> walk_cost ps)"
proof -
  from run_search_result[OF st, of g ngoal] obtain s where
    r: "reach g ngoal (start_state g nstart) s" and inv: "search_inv g nstart s"
    and e: "(\<exists>e. iteration g ngoal s = Raise e \<and> run_search g nstart ngoal = Some (Inl e))
        \<or> (\<exists>c cur ns. (c, cur) \<in> set (openset s) \<and> min_key (openset s) = Inr c
              \<and> node_x cur = node_x ngoal \<and> node_y cur = node_y ngoal
              \<and> chain (closedset s) (node_pind cur) ns
              \<and> run_search g nstart ngoal =
                  Some (Inr (calc_position g (node_x ngoal) (minx g)
                               # map (\<lambda>n. calc_position g (node_x n) (minx g)) ns,
                             calc_position g (node_y ngoal) (miny g)
                               # map (\<lambda>n. calc_position g (node_y n) (miny g)) ns,
                             expansion s @ [(calc_position g (node_x cur) (minx g),
                                             calc_position g (node_y cur) (miny g))])))"
    by blast
  have dj: "dijkstra_inv g nstart ngoal {} s" by (rule dijkstra_reach[OF sg fs z r])
  have ne: "openset s \<noteq> []" by (rule frontier_nonempty[OF sg fs inv dj w0])
  from e show ?thesis
  proof
    assume "\<exists>e. iteration g ngoal s = Raise e \<and> run_search g nstart ngoal = Some (Inl e)"
    with iteration_Raise_sound[OF sg] ne show ?thesis by blast
  next
    assume "\<exists>c cur ns. (c, cur) \<in> set (openset s) \<and> min_key (openset s) = Inr c
              \<and> node_x cur = node_x ngoal \<and> node_y cur = node_y ngoal
              \<and> chain (closedset s) (node_pind cur) ns
              \<and> run_search g nstart ngoal =
                  Some (Inr (calc_position g (node_x ngoal) (minx g)
                               # map (\<lambda>n. calc_position g (node_x n) (minx g)) ns,
                             calc_position g (node_y ngoal) (miny g)
                               # map (\<lambda>n. calc_position g (node_y n) (miny g)) ns,
                             expansion s @ [(calc_position g (node_x cur) (minx g),
                                             calc_position g (node_y cur) (miny g))]))"
    then obtain c cur ns where m: "(c, cur) \<in> set (openset s)"
      and mk: "min_key (openset s) = Inr c"
      and xy: "node_x cur = node_x ngoal" "node_y cur = node_y ngoal"
      and ch: "chain (closedset s) (node_pind cur) ns"
      and rs: "run_search g nstart ngoal =
                  Some (Inr (calc_position g (node_x ngoal) (minx g)
                               # map (\<lambda>n. calc_position g (node_x n) (minx g)) ns,
                             calc_position g (node_y ngoal) (miny g)
                               # map (\<lambda>n. calc_position g (node_y n) (miny g)) ns,
                             expansion s @ [(calc_position g (node_x cur) (minx g),
                                             calc_position g (node_y cur) (miny g))]))"
      by blast
    define cs where "cs = map cell_of (cur # ns)"
    have cg: "cell_of cur = cell_of ngoal" using xy by (simp add: cell_of_def)
    have d: "distinct (map fst (openset s))" using inv by (simp add: search_inv_def)
    from map_of_is_SomeI[OF d m] have mo: "map_of (openset s) c = Some cur" .
    from dj_attained[OF dj, of "(c, cur)"] m have li: "linked nstart (closedset s) cur" by simp
    from open_entry(2)[OF inv m] fs have fc: "free_cell g (cell_of cur)"
      by (auto simp: free_cell_of)
    from chain_walk[OF sg fs z st inv dj ch li fc]
    have w: "walk g (rev cs)" and h: "hd (rev cs) = cell_of nstart"
      and k: "walk_cost (rev cs) = node_cost cur" by (simp_all add: cs_def)
    have l: "last (rev cs) = cell_of ngoal" by (simp add: cs_def cg)
    have "lower_bound g (cell_of nstart) cur"
      by (rule pop_optimal[OF sg fs z inv dj mk mo])
    then have lb: "\<forall>ps. walk g ps \<longrightarrow> hd ps = cell_of nstart \<longrightarrow> last ps = cell_of ngoal
            \<longrightarrow> walk_cost (rev cs) \<le> walk_cost ps"
      by (simp add: lower_bound_def k cg)
    have rx: "calc_position g (node_x ngoal) (minx g)
                # map (\<lambda>n. calc_position g (node_x n) (minx g)) ns
              = map (\<lambda>c. calc_position g (fst c) (minx g)) cs"
      and ry: "calc_position g (node_y ngoal) (miny g)
                # map (\<lambda>n. calc_position g (node_y n) (miny g)) ns
              = map (\<lambda>c. calc_position g (snd c) (miny g)) cs"
      using xy by (simp_all add: cs_def cell_of_def)
    from rs w h l lb show ?thesis unfolding rx ry by blast
  qed
qed

lemma planning_returns_cheapest_path:
  assumes "calc_xyindex g sx (minx g) = Inr six" and "calc_xyindex g sy (miny g) = Inr siy"
    and "calc_xyindex g gx (minx g) = Inr gix" and "calc_xyindex g gy (miny g) = Inr giy"
    and sg: "sound_grid g" and fs: "free_cell g (six, siy)"
    and w0: "walk g ps0" "hd ps0 = (six, siy)" "last ps0 = (gix, giy)"
  shows "\<exists>rx ry ex cs. planning g sx sy gx gy = Some (Inr (rx, ry, ex))
      \<and> rx = map (\<lambda>c. calc_position g (fst c) (minx g)) cs
      \<and> ry = map (\<lambda>c. calc_position g (snd c) (miny g)) cs
      \<and> walk g (rev cs) \<and> hd (rev cs) = (six, siy) \<and> last (rev cs) = (gix, giy)
      \<and> (\<forall>ps. walk g ps \<longrightarrow> hd ps = (six, siy) \<longrightarrow> last ps = (gix, giy)
            \<longrightarrow> walk_cost (rev cs) \<le> walk_cost ps)"
proof -
  let ?a = "\<lparr>node_x = six, node_y = siy, node_cost = 0, node_pind = - 1\<rparr>"
  let ?b = "\<lparr>node_x = gix, node_y = giy, node_cost = 0, node_pind = - 1\<rparr>"
  have p: "planning g sx sy gx gy = run_search g ?a ?b" by (rule planning_run[OF assms(1-4)])
  have a: "cell_of ?a = (six, siy)" and b: "cell_of ?b = (gix, giy)"
    by (simp_all add: cell_of_def)
  from run_search_cheapest[of ?a g ps0 ?b] sg fs w0
  show ?thesis unfolding p a b by simp
qed

lemma sound_gridI:
  assumes r: "0 < reso g" and lx: "length (obmap g) = nat (xwidth g)"
    and ly: "\<forall>col \<in> set (obmap g). length col = nat (ywidth g)"
    and ux: "of_int (maxx g - minx g) \<le> of_int (xwidth g) * reso g"
    and uy: "of_int (maxy g - miny g) \<le> of_int (ywidth g) * reso g"
    and k0: "miny g * xwidth g + minx g \<le> 0"
  shows "sound_grid g"
proof -
  have inside: "0 \<le> node_x n \<and> node_x n < xwidth g \<and> 0 \<le> node_y n \<and> node_y n < ywidth g"
    if p: "\<not> calc_position g (node_x n) (minx g) < of_int (minx g)"
          "\<not> calc_position g (node_y n) (miny g) < of_int (miny g)"
          "\<not> of_int (maxx g) \<le> calc_position g (node_x n) (minx g)"
          "\<not> of_int (maxy g) \<le> calc_position g (node_y n) (miny g)" for n :: Node
  proof -
    from p(1) r have "0 \<le> real_of_int (node_x n) * reso g" by (simp add: calc_position_def)
    with r have x0: "0 \<le> node_x n" by (simp add: zero_le_mult_iff)
    from p(2) r have "0 \<le> real_of_int (node_y n) * reso g" by (simp add: calc_position_def)
    with r have y0: "0 \<le> node_y n" by (simp add: zero_le_mult_iff)
    from p(3) ux have "real_of_int (node_x n) * reso g < real_of_int (xwidth g) * reso g"
      by (simp add: calc_position_def)
    with r have x1: "node_x n < xwidth g" by simp
    from p(4) uy have "real_of_int (node_y n) * reso g < real_of_int (ywidth g) * reso g"
      by (simp add: calc_position_def)
    with r have y1: "node_y n < ywidth g" by simp
    from x0 x1 y0 y1 show ?thesis by simp
  qed
  have nf: "verify_node g n \<noteq> Inl e" for n e
  proof (cases "\<not> calc_position g (node_x n) (minx g) < of_int (minx g)
          \<and> \<not> calc_position g (node_y n) (miny g) < of_int (miny g)
          \<and> \<not> of_int (maxx g) \<le> calc_position g (node_x n) (minx g)
          \<and> \<not> of_int (maxy g) \<le> calc_position g (node_y n) (miny g)")
    case False
    then show ?thesis by (auto simp: verify_node_def Let_def)
  next
    case True
    with inside[of n] have i: "0 \<le> node_x n" "node_x n < xwidth g"
      "0 \<le> node_y n" "node_y n < ywidth g" by simp_all
    then have gx: "py_get (obmap g) (node_x n) = Inr (obmap g ! nat (node_x n))"
      by (simp add: py_get_def lx)
    from i lx have "obmap g ! nat (node_x n) \<in> set (obmap g)" by simp
    with ly have "length (obmap g ! nat (node_x n)) = nat (ywidth g)" by simp
    with i have "\<exists>b. py_get (obmap g ! nat (node_x n)) (node_y n) = Inr b"
      by (simp add: py_get_def)
    with gx show ?thesis by (auto simp: verify_node_def Let_def split: if_splits)
  qed
  have fr: "0 \<le> fst c \<and> fst c < xwidth g \<and> 0 \<le> snd c \<and> snd c < ywidth g"
    if "free_cell g c" for c
    using that inside[of "\<lparr>node_x = fst c, node_y = snd c, node_cost = 0, node_pind = - 1\<rparr>"]
    by (auto simp: free_cell_def verify_node_def Let_def split: if_splits)
  have inj: "c = c'" if "free_cell g c" "free_cell g c'" "cell_key g c = cell_key g c'" for c c'
  proof -
    from fr[OF that(1)] fr[OF that(2)] have b: "0 \<le> fst c" "fst c < xwidth g"
      "0 \<le> fst c'" "fst c' < xwidth g" by simp_all
    from that(3) have e: "snd c * xwidth g + fst c = snd c' * xwidth g + fst c'"
      by (simp add: cell_key_def algebra_simps)
    from e b have "(snd c * xwidth g + fst c) mod xwidth g = (snd c' * xwidth g + fst c') mod xwidth g"
      by simp
    with b have x: "fst c = fst c'" by simp
    with e b have "snd c = snd c'" by simp
    with x show ?thesis by (simp add: prod_eq_iff)
  qed
  have ns: "cell_key g c \<noteq> - 1" if "free_cell g c" for c
  proof -
    from fr[OF that] have b: "0 \<le> fst c" "0 \<le> snd c" "0 \<le> xwidth g" by simp_all
    then have "0 \<le> snd c * xwidth g + fst c" by simp
    with k0 have "0 \<le> cell_key g c" by (simp add: cell_key_def algebra_simps)
    then show ?thesis by simp
  qed
  from nf inj ns show ?thesis unfolding sound_grid_def by blast
qed

subsection \<open>Grids the constructor builds\<close>

text \<open>The map the constructor allocates is \<open>xwidth\<close> by \<open>ywidth\<close>.  When the
  resolution is positive, neither dimension was rounded down and the cell (0, 0)
  has a non-negative linear index, the grid is sound; \<open>grid_B\<close> is such a grid.\<close>

lemma init_obmap_shape:
  assumes "GraphSearch_init ox oy res rad = Inr g"
  shows "length (obmap g) = nat (xwidth g)"
    and "\<forall>col \<in> set (obmap g). length col = nat (ywidth g)"
proof -
  obtain g0 where
    g0: "obmap g0 = replicate (nat (xwidth g0)) (replicate (nat (ywidth g0)) False)"
    and g: "g = g0\<lparr>obmap := fold (mark_column g0 (zip ox oy)) [0..<nat (xwidth g0)] (obmap g0)\<rparr>"
    by (rule calc_obstacle_map_Inr[OF assms[unfolded GraphSearch_init_def]])
  have w: "nat (xwidth g0) \<le> length (obmap g0)" by (simp add: g0)
  note m = mark_columns[OF w, of g0 "zip ox oy"]
  have ob: "obmap g = fold (mark_column g0 (zip ox oy)) [0..<nat (xwidth g0)] (obmap g0)"
    and xw: "xwidth g = xwidth g0" "ywidth g = ywidth g0"
    by (simp_all add: g)
  from m show l: "length (obmap g) = nat (xwidth g)" by (simp add: ob xw g0)
  show "\<forall>col \<in> set (obmap g). length col = nat (ywidth g)"
  proof
    fix col assume "col \<in> set (obmap g)"
    then obtain i where i: "i < length (obmap g)" "obmap g ! i = col"
      by (auto simp: in_set_conv_nth)
    with l have "i < length (obmap g0)" by (simp add: xw g0)
    with m have "length (obmap g ! i) = length (obmap g0 ! i)" by (simp add: ob)
    also have "\<dots> = nat (ywidth g)" using \<open>i < length (obmap g0)\<close> by (simp add: g0 xw)
    finally show "length col = nat (ywidth g)" by (simp add: i)
  qed
qed

lemma init_sound_grid:
  assumes "GraphSearch_init ox oy res rad = Inr g" and "0 < reso g"
    and "of_int (maxx g - minx g) \<le> of_int (xwidth g) * reso g"
    and "of_int (maxy g - miny g) \<le> of_int (ywidth g) * reso g"
    and "miny g * xwidth g + minx g \<le> 0"
  shows "sound_grid g"
  using assms(2) init_obmap_shape[OF assms(1)] assms(3-5) by (rule sound_gridI)

lemma sound_grid_B: "sound_grid grid_B"
  by (rule init_sound_grid[OF init_grid_B]) (simp_all add: grid_B_def)

lemma cheapest_path_on_grid_B:
  "\<exists>rx ry ex cs. planning grid_B 1 0 1 1 = Some (Inr (rx, ry, ex))
      \<and> rx = map (\<lambda>c. calc_position grid_B (fst c) (minx grid_B)) cs
      \<and> ry = map (\<lambda>c. calc_position grid_B (snd c) (miny grid_B)) cs
      \<and> walk grid_B (rev cs) \<and> hd (rev cs) = (1, 0) \<and> last (rev cs) = (1, 1)
      \<and> (\<forall>ps. walk grid_B ps \<longrightarrow> hd ps = (1, 0) \<longrightarrow> last ps = (1, 1)
            \<longrightarrow> walk_cost (rev cs) \<le> walk_cost ps)"
proof -
  have f: "free_cell grid_B (1, 0)" "free_cell grid_B (1, 1)"
    by (simp_all add: free_cell_def grid_B_def verify_node_def calc_position_def py_get_def)
  have m: "move_cost (1, 0) (1, 1) \<noteq> None"
    by (simp add: move_cost_def get_motion_model_def)
  from f m have w: "walk grid_B [(1, 0), (1, 1)]" by simp
  show ?thesis
    by (rule planning_returns_cheapest_path
        [OF xyindex_B(2) xyindex_B(3) xyindex_B(2) xyindex_B(4) sound_grid_B f(1) w]) simp_all
qed

section \<open>Runs of planning on the example grids\<close>

text \<open>
  C1 (the code faults): on \<open>grid_A\<close> the start (4, 0) and the goal (4, 4) map to
  the free cells (1, 0) and (1, 1), which are neighbours, so the cheapest path
  costs 1.  The first neighbour generated from the start is (2, 0): it passes
  the positional checks of \<open>verify_node\<close> and indexes the map outside its two
  columns, so \<open>planning\<close> ends with \<open>IndexError\<close> and returns no path.  On a
  sound grid the claim holds (\<open>planning_returns_cheapest_path\<close>).
\<close>

theorem planning_index_fault:
  "GraphSearch_init [0, 9] [0, 9] 4 1 = Inr grid_A
   \<and> verify_node grid_A \<lparr>node_x = 1, node_y = 0, node_cost = 0, node_pind = - 1\<rparr> = Inr True
   \<and> verify_node grid_A \<lparr>node_x = 1, node_y = 1, node_cost = 0, node_pind = - 1\<rparr> = Inr True
   \<and> planning grid_A 4 0 4 4 = Some (Inl IndexError)"
proof -
  have "verify_node grid_A \<lparr>node_x = 1, node_y = 0, node_cost = 0, node_pind = - 1\<rparr> = Inr True"
       "verify_node grid_A \<lparr>node_x = 1, node_y = 1, node_cost = 0, node_pind = - 1\<rparr> = Inr True"
    by (simp_all add: grid_A_def verify_node_def calc_position_def py_get_def)
  moreover have "planning grid_A 4 0 4 4 = Some (Inl IndexError)"
    by (simp add: eval_plan grid_A_def)
  ultimately show ?thesis using init_grid_A by (intro conjI)
qed

end
